theory Spec2Isabelle
  imports Main "HOL-Library.Word"
begin

section \<open>Data model of script.py\<close>

text \<open>
  A Python \<open>bytes\<close> value is a list of 8-bit words. A script item is either an
  opcode (a Python \<open>int\<close>, unbounded) or a data push (a \<open>bytes\<close> value); the run-time
  test \<open>type(item) == int\<close> of the source is the case distinction on this datatype.
  A \<open>Script\<close> object has the single field \<open>items\<close>, so the value of a script is its
  item list.
\<close>

type_synonym byte = "8 word"
type_synonym bytes = "byte list"

datatype item = Op int | Data bytes

type_synonym Script = "item list"

text \<open>The exceptions that the modelled code can raise.\<close>

datatype error =
    IndexError
  | KeyError
  | OverflowError
  | EncodingError
  | TruncatedInputError

text \<open>
  A \<open>BytesIO\<close> stream is the list of bytes not read yet. \<open>s.read(n)\<close> returns at most
  \<open>n\<close> bytes, fewer when the stream ends, and never raises.
\<close>

definition read :: "nat \<Rightarrow> bytes \<Rightarrow> bytes \<times> bytes" where
  "read n s = (take n s, drop n s)"

section \<open>The byte codec of helper.py\<close>

text \<open>
  Modelled from the spec: \<open>int_to_little_endian\<close>, \<open>little_endian_to_int\<close>,
  \<open>read_varint\<close> and \<open>encode_varint\<close> live in helper.py, which is not among the
  sources. The spec (section 4.1) gives them: a fixed-width little-endian conversion; a
  varint that is one byte below \<open>0xfd\<close>, and otherwise the marker \<open>0xfd\<close>, \<open>0xfe\<close> or
  \<open>0xff\<close> followed by 2, 4 or 8 little-endian bytes; \<open>encode_varint\<close> is the inverse
  and fails beyond the 8-byte range. A value that does not fit the width, and a stream
  that ends inside a varint, are errors.
\<close>

fun le_bytes :: "nat \<Rightarrow> nat \<Rightarrow> bytes" where
  "le_bytes n 0 = []"
| "le_bytes n (Suc w) = of_nat (n mod 256) # le_bytes (n div 256) w"

definition int_to_little_endian :: "int \<Rightarrow> nat \<Rightarrow> error + bytes" where
  "int_to_little_endian n width =
     (if 0 \<le> n \<and> n < 256 ^ width then Inr (le_bytes (nat n) width) else Inl OverflowError)"

fun little_endian_to_int :: "bytes \<Rightarrow> nat" where
  "little_endian_to_int [] = 0"
| "little_endian_to_int (b # bs) = unat b + 256 * little_endian_to_int bs"

definition read_le :: "nat \<Rightarrow> bytes \<Rightarrow> error + (nat \<times> bytes)" where
  "read_le k s =
     (if length s < k then Inl TruncatedInputError
      else Inr (little_endian_to_int (take k s), drop k s))"

definition read_varint :: "bytes \<Rightarrow> error + (nat \<times> bytes)" where
  "read_varint s =
     (case s of
        [] \<Rightarrow> Inl TruncatedInputError
      | i # s1 \<Rightarrow>
          if i = 0xfd then read_le 2 s1
          else if i = 0xfe then read_le 4 s1
          else if i = 0xff then read_le 8 s1
          else Inr (unat i, s1))"

definition encode_varint :: "nat \<Rightarrow> error + bytes" where
  "encode_varint n =
     (if n < 0xfd then Inr [of_nat n]
      else if n < 0x10000 then Inr (0xfd # le_bytes n 2)
      else if n < 0x100000000 then Inr (0xfe # le_bytes n 4)
      else if n < 0x10000000000000000 then Inr (0xff # le_bytes n 8)
      else Inl EncodingError)"

section \<open>Script.parse, Script.raw_serialize, Script.serialize\<close>

text \<open>
  \<open>Script.parse\<close>: the \<open>while count < length\<close> loop. \<open>current[0]\<close> raises
  \<open>IndexError\<close> when \<open>s.read(1)\<close> returned no byte; \<open>s.read(n)\<close> for a data item
  never raises. The result is the item list together with the rest of the stream.
\<close>

function parse_loop :: "nat \<Rightarrow> nat \<Rightarrow> item list \<Rightarrow> bytes \<Rightarrow> error + (Script \<times> bytes)" where
  "parse_loop len count items s =
     (if count < len then
        (case read 1 s of
           (current, s1) \<Rightarrow>
             (case current of
                [] \<Rightarrow> Inl IndexError
              | b # _ \<Rightarrow>
                  let current_byte = uint b in
                  if current_byte \<ge> 1 \<and> current_byte \<le> 75 then
                    (case read (nat current_byte) s1 of
                       (d, s2) \<Rightarrow>
                         parse_loop len (count + 1 + nat current_byte) (items @ [Data d]) s2)
                  else parse_loop len (count + 1) (items @ [Op current_byte]) s1))
      else Inr (items, s))"
  by pat_completeness auto
termination
  by (relation "measure (\<lambda>(len, count, items, s). len - count)") auto

declare parse_loop.simps [simp del]

definition parse :: "bytes \<Rightarrow> error + (Script \<times> bytes)" where
  "parse s =
     (case read_varint s of
        Inl e \<Rightarrow> Inl e
      | Inr (len, s1) \<Rightarrow> parse_loop len 0 [] s1)"

text \<open>
  \<open>Script.raw_serialize\<close>: the \<open>for item in self.items\<close> loop with its accumulator
  \<open>result\<close>. \<open>int_to_little_endian(x, 1)\<close> raises when \<open>x\<close> is not a single byte.
\<close>

fun raw_serialize_loop :: "item list \<Rightarrow> bytes \<Rightarrow> error + bytes" where
  "raw_serialize_loop [] result = Inr result"
| "raw_serialize_loop (Op n # items) result =
     (case int_to_little_endian n 1 of
        Inl e \<Rightarrow> Inl e
      | Inr b \<Rightarrow> raw_serialize_loop items (result @ b))"
| "raw_serialize_loop (Data d # items) result =
     (case int_to_little_endian (int (length d)) 1 of
        Inl e \<Rightarrow> Inl e
      | Inr prefix \<Rightarrow> raw_serialize_loop items (result @ (prefix @ d)))"

definition raw_serialize :: "Script \<Rightarrow> error + bytes" where
  "raw_serialize self = raw_serialize_loop self []"

definition serialize :: "Script \<Rightarrow> error + bytes" where
  "serialize self =
     (case raw_serialize self of
        Inl e \<Rightarrow> Inl e
      | Inr result \<Rightarrow>
          (case encode_varint (length result) of
             Inl e \<Rightarrow> Inl e
           | Inr v \<Rightarrow> Inr (v @ result)))"

text \<open>\<open>Script.__add__\<close>, \<open>Script.hash160\<close> and \<open>Script.sha256\<close>; the digest is a parameter.\<close>

definition Script_add :: "Script \<Rightarrow> Script \<Rightarrow> Script" where
  "Script_add self other = self @ other"

definition Script_digest :: "(bytes \<Rightarrow> bytes) \<Rightarrow> Script \<Rightarrow> error + bytes" where
  "Script_digest digest self =
     (case raw_serialize self of Inl e \<Rightarrow> Inl e | Inr raw \<Rightarrow> Inr (digest raw))"

section \<open>The collaborators of script.py\<close>

text \<open>
  The interpreter's stack holds Python values: integers pushed by opcode functions and
  \<open>bytes\<close> pushed as data. \<open>x == 0\<close> and \<open>x != 1\<close> compare a stack element with a Python
  integer, and a \<open>bytes\<close> value never equals an integer. The top of the stack is the end
  of the list (\<open>append\<close> and \<open>pop\<close>); \<open>stack[0]\<close> is its bottom.
\<close>

datatype elem = Num int | Bytes bytes

fun elem_of_item :: "item \<Rightarrow> elem" where
  "elem_of_item (Op n) = Num n"
| "elem_of_item (Data d) = Bytes d"

fun item_of_elem :: "elem \<Rightarrow> item" where
  "item_of_elem (Num n) = Op n"
| "item_of_elem (Bytes d) = Data d"

text \<open>\<open>type(x) == bytes and len(x) == n\<close>, on an item and on a stack element.\<close>

fun is_bytes_item :: "item \<Rightarrow> nat \<Rightarrow> bool" where
  "is_bytes_item (Op _) n = False"
| "is_bytes_item (Data d) n = (length d = n)"

fun is_bytes_elem :: "elem \<Rightarrow> nat \<Rightarrow> bool" where
  "is_bytes_elem (Num _) n = False"
| "is_bytes_elem (Bytes d) n = (length d = n)"

text \<open>
  The two opcode tables and the opcode functions of op.py, the digests and the address
  encoders of helper.py are not among the sources: they are parameters of the model. The
  tables \<open>OP_CODE_FUNCTIONS\<close> and \<open>OP_CODE_NAMES\<close> are Python dictionaries, and
  \<open>d[key]\<close> raises \<open>KeyError\<close> for a key that \<open>d\<close> does not hold. An opcode function
  takes the stack, and for the signing opcodes the signing context's \<open>sig_hash\<close> as a
  second argument; it returns its boolean result and the stack as it left it. The type
  \<open>'h\<close> is that of the \<open>sig_hash\<close> capability.
\<close>

type_synonym 'h op_function = "elem list \<Rightarrow> 'h option \<Rightarrow> bool \<times> elem list"

record 'h externals =
  OP_CODE_FUNCTIONS :: "int \<Rightarrow> 'h op_function option"
  OP_CODE_NAMES :: "int \<Rightarrow> string option"
  op_hash160 :: "elem list \<Rightarrow> bool \<times> elem list"
  op_equal :: "elem list \<Rightarrow> bool \<times> elem list"
  sha256 :: "bytes \<Rightarrow> bytes"
  hash160 :: "bytes \<Rightarrow> bytes"
  h160_to_p2pkh_address :: "item \<Rightarrow> bool \<Rightarrow> string"
  h160_to_p2sh_address :: "item \<Rightarrow> bool \<Rightarrow> string"
  encode_bech32_checksum :: "bytes \<Rightarrow> bytes \<Rightarrow> string"

text \<open>
  Modelled from the spec: the class of the signing context \<open>tx_in\<close> lives in tx.py,
  which is not among the sources. \<open>evaluate\<close> reads two attributes of it: the
  \<open>sig_hash\<close> capability and the witness program, an ordered sequence of byte strings
  (spec, section 3).
\<close>

record 'h tx_in =
  sig_hash :: 'h
  witness_program :: "bytes list"

text \<open>The script constructors at the top of script.py.\<close>

definition p2pkh_script :: "item \<Rightarrow> Script" where
  "p2pkh_script h160 = [Op 0x76, Op 0xa9, h160, Op 0x88, Op 0xac]"

definition p2sh_script :: "item \<Rightarrow> Script" where
  "p2sh_script h160 = [Op 0xa9, h160, Op 0x87]"

definition p2wpkh_script :: "item \<Rightarrow> Script" where
  "p2wpkh_script h160 = [Op 0x00, h160]"

definition p2wsh_script :: "item \<Rightarrow> Script" where
  "p2wsh_script h256 = [Op 0x00, h256]"

section \<open>Script.evaluate\<close>

text \<open>
  \<open>evaluate\<close> mutates Python list objects, so the item lists live in a store: a
  reference is an index into the list of all list objects, and allocation appends. The
  queue \<open>items\<close> of the interpreter is the list object at reference \<open>q\<close>; every
  \<open>pop\<close> and \<open>extend\<close> of the source is an update of the store at \<open>q\<close>. The stack is a
  fresh local list that only the opcode functions see, so it is passed as a value.

  The body of the loop ends in one of three ways: \<open>return\<close> of a boolean, an exception,
  or the next iteration with the new stack.
\<close>

type_synonym ref = nat
type_synonym heap = "item list list"

datatype result = Returned bool | Raised error

text \<open>The p2sh rule (lines 165 to 184), run after \<open>item\<close> was pushed.\<close>

definition p2sh_rule ::
  "'h externals \<Rightarrow> bytes \<Rightarrow> ref \<Rightarrow> heap \<Rightarrow> elem list \<Rightarrow> (result + elem list) \<times> heap" where
  "p2sh_rule ext item q h stack =
     (if length (h ! q) = 3 \<and> h ! q ! 0 = Op 0xa9
         \<and> is_bytes_item (h ! q ! 1) 20 \<and> h ! q ! 2 = Op 0x87 then
        (case encode_varint (length item) of
           Inl e \<Rightarrow> (Inl (Raised e), h)
         | Inr v \<Rightarrow>
             let redeem_script = v @ item;
                 h1 = h[q := butlast (h ! q)];
                 h160 = last (h1 ! q);
                 h2 = h1[q := butlast (h1 ! q)];
                 h3 = h2[q := butlast (h2 ! q)]
             in (case op_hash160 ext stack of
                   (False, _) \<Rightarrow> (Inl (Returned False), h3)
                 | (True, stack1) \<Rightarrow>
                     (case op_equal ext (stack1 @ [elem_of_item h160]) of
                        (False, _) \<Rightarrow> (Inl (Returned False), h3)
                      | (True, stack2) \<Rightarrow>
                          if stack2 = [] then (Inl (Raised IndexError), h3)
                          else if last stack2 \<noteq> Num 1 then (Inl (Returned False), h3)
                          else
                            (case parse redeem_script of
                               Inl e \<Rightarrow> (Inl (Raised e), h3)
                             | Inr (script, _) \<Rightarrow>
                                 (Inr (butlast stack2), h3[q := h3 ! q @ script])))))
      else (Inr stack, h))"

text \<open>The p2wpkh rule (lines 187 to 192).\<close>

definition p2wpkh_rule :: "'h tx_in \<Rightarrow> ref \<Rightarrow> heap \<Rightarrow> elem list \<Rightarrow> elem list \<times> heap" where
  "p2wpkh_rule tx_in q h stack =
     (if length stack = 2 \<and> stack ! 0 = Num 0 \<and> is_bytes_elem (stack ! 1) 20 then
        let h160 = last stack;
            stack1 = butlast stack;
            stack2 = butlast stack1;
            h1 = h[q := h ! q @ map Data (witness_program tx_in)];
            h2 = h1[q := h1 ! q @ p2pkh_script (item_of_elem h160)]
        in (stack2, h2)
      else (stack, h))"

text \<open>
  The p2wsh rule (lines 195 to 206). \<open>tx_in.witness_program[-1]\<close> raises \<open>IndexError\<close>
  on an empty witness program, after the \<open>extend\<close> with the empty slice.
\<close>

definition p2wsh_rule ::
  "'h externals \<Rightarrow> 'h tx_in \<Rightarrow> ref \<Rightarrow> heap \<Rightarrow> elem list \<Rightarrow> (result + elem list) \<times> heap" where
  "p2wsh_rule ext tx_in q h stack =
     (if length stack = 2 \<and> stack ! 0 = Num 0 \<and> is_bytes_elem (stack ! 1) 32 then
        let h256 = last stack;
            stack1 = butlast stack;
            stack2 = butlast stack1;
            h1 = h[q := h ! q @ map Data (butlast (witness_program tx_in))]
        in if witness_program tx_in = [] then (Inl (Raised IndexError), h1)
           else
             let witness_script = last (witness_program tx_in)
             in if h256 \<noteq> Bytes (sha256 ext witness_script) then (Inl (Returned False), h1)
                else
                  (case encode_varint (length witness_script) of
                     Inl e \<Rightarrow> (Inl (Raised e), h1)
                   | Inr v \<Rightarrow>
                       (case parse (v @ witness_script) of
                          Inl e \<Rightarrow> (Inl (Raised e), h1)
                        | Inr (script, _) \<Rightarrow> (Inr stack2, h1[q := h1 ! q @ script])))
      else (Inr stack, h))"

text \<open>
  The two statements \<open>print('bad op: {}'.format(OP_CODE_NAMES[item]))\<close> and
  \<open>return False\<close> (lines 153 to 154 and 157 to 158): the lookup of the name raises
  \<open>KeyError\<close> when the names table does not hold the opcode, and then \<open>return False\<close>
  is not reached. What is printed is not modelled.
\<close>

definition bad_op :: "'h externals \<Rightarrow> int \<Rightarrow> heap \<Rightarrow> (result + elem list) \<times> heap" where
  "bad_op ext item h =
     (case OP_CODE_NAMES ext item of
        None \<Rightarrow> (Inl (Raised KeyError), h)
      | Some name \<Rightarrow> (Inl (Returned False), h))"

text \<open>
  One iteration of the \<open>while\<close> loop, after \<open>item = items.pop(0)\<close>: the opcode branch
  (lines 146 to 158) and the data branch (lines 159 to 206).
\<close>

definition evaluate_item ::
  "'h externals \<Rightarrow> 'h tx_in \<Rightarrow> item \<Rightarrow> ref \<Rightarrow> heap \<Rightarrow> elem list \<Rightarrow> (result + elem list) \<times> heap" where
  "evaluate_item ext tx_in item q h stack =
     (case item of
        Op n \<Rightarrow>
          (case OP_CODE_FUNCTIONS ext n of
             None \<Rightarrow> (Inl (Raised KeyError), h)
           | Some operation \<Rightarrow>
               if n \<in> {172, 173, 174, 175} then
                 (case operation stack (Some (sig_hash tx_in)) of
                    (False, _) \<Rightarrow> bad_op ext n h
                  | (True, stack1) \<Rightarrow> (Inr stack1, h))
               else
                 (case operation stack None of
                    (False, _) \<Rightarrow> bad_op ext n h
                  | (True, stack1) \<Rightarrow> (Inr stack1, h)))
      | Data d \<Rightarrow>
          (case p2sh_rule ext d q h (stack @ [Bytes d]) of
             (Inl r, h1) \<Rightarrow> (Inl r, h1)
           | (Inr stack1, h1) \<Rightarrow>
               (case p2wpkh_rule tx_in q h1 stack1 of
                  (stack2, h2) \<Rightarrow> p2wsh_rule ext tx_in q h2 stack2)))"

text \<open>The checks after the loop (lines 207 to 213).\<close>

definition final_check :: "elem list \<Rightarrow> bool" where
  "final_check stack =
     (if length stack = 0 then False
      else if last stack = Num 0 then False
      else True)"

text \<open>
  The loop \<open>while len(items) > 0\<close>. The rewrite rules extend the queue, so the loop
  need not end: it is a partial function, and \<open>None\<close> is a run that never returns.
\<close>

partial_function (option) evaluate_loop ::
  "'h externals \<Rightarrow> 'h tx_in \<Rightarrow> ref \<Rightarrow> heap \<Rightarrow> elem list \<Rightarrow> (result \<times> heap) option" where
  "evaluate_loop ext tx_in q h stack =
     (case h ! q of
        [] \<Rightarrow> Some (Returned (final_check stack), h)
      | item # rest \<Rightarrow>
          (case evaluate_item ext tx_in item q (h[q := rest]) stack of
             (Inl r, h1) \<Rightarrow> Some (r, h1)
           | (Inr stack1, h1) \<Rightarrow> evaluate_loop ext tx_in q h1 stack1))"

text \<open>
  \<open>evaluate\<close> itself: \<open>self\<close> is the reference in the script's \<open>items\<close> field;
  \<open>self.items[:]\<close> allocates a new list object with the same contents.
\<close>

definition evaluate ::
  "'h externals \<Rightarrow> heap \<Rightarrow> ref \<Rightarrow> 'h tx_in \<Rightarrow> (result \<times> heap) option" where
  "evaluate ext h self tx_in =
     (let q = length h;
          h1 = h @ [h ! self]
      in evaluate_loop ext tx_in q h1 [])"

section \<open>Script.address\<close>

definition is_p2pkh_script_pubkey :: "Script \<Rightarrow> bool" where
  "is_p2pkh_script_pubkey self =
     (length self = 5 \<and> self ! 0 = Op 0x76 \<and> self ! 1 = Op 0xa9
      \<and> is_bytes_item (self ! 2) 20 \<and> self ! 3 = Op 0x88 \<and> self ! 4 = Op 0xac)"

definition is_p2sh_script_pubkey :: "Script \<Rightarrow> bool" where
  "is_p2sh_script_pubkey self =
     (length self = 3 \<and> self ! 0 = Op 0xa9
      \<and> is_bytes_item (self ! 1) 20 \<and> self ! 2 = Op 0x87)"

definition is_p2wpkh_script_pubkey :: "Script \<Rightarrow> bool" where
  "is_p2wpkh_script_pubkey self =
     (length self = 2 \<and> self ! 0 = Op 0x00 \<and> is_bytes_item (self ! 1) 20)"

definition is_p2wsh_script_pubkey :: "Script \<Rightarrow> bool" where
  "is_p2wsh_script_pubkey self =
     (length self = 2 \<and> self ! 0 = Op 0x00 \<and> is_bytes_item (self ! 1) 32)"

text \<open>The prefixes \<open>b'tb'\<close> and \<open>b'bc'\<close>.\<close>

definition bech32_prefix :: "bool \<Rightarrow> bytes" where
  "bech32_prefix testnet = (if testnet then [0x74, 0x62] else [0x62, 0x63])"

text \<open>
  \<open>address\<close> returns the encoder's string, or \<open>None\<close> when it falls off the end of the
  \<open>if\<close> chain; \<open>raw_serialize\<close> could raise.
\<close>

definition address :: "'h externals \<Rightarrow> Script \<Rightarrow> bool \<Rightarrow> error + string option" where
  "address ext self testnet =
     (if is_p2pkh_script_pubkey self then
        Inr (Some (h160_to_p2pkh_address ext (self ! 2) testnet))
      else if is_p2sh_script_pubkey self then
        Inr (Some (h160_to_p2sh_address ext (self ! 1) testnet))
      else if is_p2wpkh_script_pubkey self then
        (case raw_serialize self of
           Inl e \<Rightarrow> Inl e
         | Inr program \<Rightarrow>
             Inr (Some (encode_bech32_checksum ext program (bech32_prefix testnet))))
      else if is_p2wsh_script_pubkey self then
        (case raw_serialize self of
           Inl e \<Rightarrow> Inl e
         | Inr program \<Rightarrow>
             Inr (Some (encode_bech32_checksum ext program (bech32_prefix testnet))))
      else Inr None)"

section \<open>Well-formed scripts and the wire format\<close>

text \<open>
  The items that \<open>parse\<close> produces from a complete stream (spec, section 3): an opcode is
  a byte that is not a push length, a data push has 1 to 75 bytes.
\<close>

fun valid_item :: "item \<Rightarrow> bool" where
  "valid_item (Op n) = (n = 0 \<or> (76 \<le> n \<and> n \<le> 255))"
| "valid_item (Data d) = (1 \<le> length d \<and> length d \<le> 75)"

text \<open>
  The wire format in the spec's words (section 4.2, \<open>serialize\<close>): one byte for an
  opcode, a one-byte length prefix and the raw bytes for a data item.
\<close>

fun item_bytes :: "item \<Rightarrow> bytes" where
  "item_bytes (Op n) = [of_int n]"
| "item_bytes (Data d) = of_nat (length d) # d"

definition wire :: "Script \<Rightarrow> bytes" where
  "wire x = concat (map item_bytes x)"

text \<open>
  Truthiness in the spec's words (section 4.2, termination): a byte string is truthy
  iff it is non-empty and not all zero; the encoded zero is falsy.
\<close>

fun spec_truthy :: "elem \<Rightarrow> bool" where
  "spec_truthy (Num n) = (n \<noteq> 0)"
| "spec_truthy (Bytes d) = (d \<noteq> [] \<and> list_ex (\<lambda>b. b \<noteq> 0) d)"

section \<open>A small instance of the collaborators\<close>

text \<open>
  To run the interpreter on concrete inputs the parameters need values. These follow
  the standard semantics that the spec (section 4.3) refers to: an opcode function
  fails on malformed operands; \<open>OP_0\<close> and \<open>OP_1\<close> push the integers 0 and 1;
  \<open>OP_EQUAL\<close> pushes 1 or 0. The digests pad or cut their argument to the digest
  length, which is enough to tell inputs apart in the examples.
\<close>

definition sample_hash160 :: "bytes \<Rightarrow> bytes" where
  "sample_hash160 bs = take 20 (bs @ replicate 20 0)"

definition sample_sha256 :: "bytes \<Rightarrow> bytes" where
  "sample_sha256 bs = take 32 (bs @ replicate 32 0)"

definition sample_op_0 :: "unit op_function" where
  "sample_op_0 stack z = (True, stack @ [Num 0])"

definition sample_op_1 :: "unit op_function" where
  "sample_op_1 stack z = (True, stack @ [Num 1])"

definition sample_op_hash160 :: "unit op_function" where
  "sample_op_hash160 stack z =
     (if stack = [] then (False, stack)
      else (case last stack of
              Num _ \<Rightarrow> (False, butlast stack)
            | Bytes d \<Rightarrow> (True, butlast stack @ [Bytes (sample_hash160 d)])))"

definition sample_op_equal :: "unit op_function" where
  "sample_op_equal stack z =
     (if length stack < 2 then (False, stack)
      else (True, butlast (butlast stack)
                  @ [Num (if last stack = last (butlast stack) then 1 else 0)]))"

definition sample_op_checksig :: "unit op_function" where
  "sample_op_checksig stack z =
     (if z = None \<or> length stack < 2 then (False, stack)
      else (True, butlast (butlast stack) @ [Num 1]))"

definition sample_table :: "int \<Rightarrow> unit op_function option" where
  "sample_table n =
     (if n = 0x00 then Some sample_op_0
      else if n = 0x51 then Some sample_op_1
      else if n = 0x87 then Some sample_op_equal
      else if n = 0xa9 then Some sample_op_hash160
      else if n = 0xac then Some sample_op_checksig
      else None)"

definition sample_names :: "int \<Rightarrow> string option" where
  "sample_names n =
     (if n = 0x00 then Some ''OP_0''
      else if n = 0x51 then Some ''OP_1''
      else if n = 0x87 then Some ''OP_EQUAL''
      else if n = 0xa9 then Some ''OP_HASH160''
      else if n = 0xac then Some ''OP_CHECKSIG''
      else None)"

definition sample_externals :: "unit externals" where
  "sample_externals =
     \<lparr> OP_CODE_FUNCTIONS = sample_table,
       OP_CODE_NAMES = sample_names,
       op_hash160 = (\<lambda>stack. sample_op_hash160 stack None),
       op_equal = (\<lambda>stack. sample_op_equal stack None),
       sha256 = sample_sha256,
       hash160 = sample_hash160,
       h160_to_p2pkh_address = (\<lambda>h testnet. if testnet then ''m'' else ''1''),
       h160_to_p2sh_address = (\<lambda>h testnet. if testnet then ''2'' else ''3''),
       encode_bech32_checksum = (\<lambda>program prefix. if prefix = [0x74, 0x62] then ''tb1'' else ''bc1'') \<rparr>"

definition sample_tx_in :: "bytes list \<Rightarrow> unit tx_in" where
  "sample_tx_in witness = \<lparr> sig_hash = (), witness_program = witness \<rparr>"

section \<open>The codec round trip\<close>

lemma length_le_bytes: "length (le_bytes n w) = w"
  by (induction w arbitrary: n) auto

lemma le_roundtrip: "little_endian_to_int (le_bytes n w) = n mod 256 ^ w"
proof (induction w arbitrary: n)
  case 0
  show ?case by simp
next
  case (Suc w)
  have "n mod 256 + 256 * (n div 256 mod 256 ^ w) = n mod (256 * 256 ^ w)"
    by (simp add: mod_mult2_eq)
  with Suc show ?case by (simp add: unat_of_nat)
qed

lemma read_le_le_bytes: "read_le k (le_bytes n k @ rest) = Inr (n mod 256 ^ k, rest)"
  by (simp add: read_le_def length_le_bytes le_roundtrip)

lemma read_varint_encode:
  assumes "encode_varint n = Inr v"
  shows "read_varint (v @ rest) = Inr (n, rest)"
proof -
  consider "n < 0xfd" | "0xfd \<le> n" "n < 0x10000" | "0x10000 \<le> n" "n < 0x100000000"
    | "0x100000000 \<le> n" "n < 0x10000000000000000" | "0x10000000000000000 \<le> n"
    by linarith
  then show ?thesis
  proof cases
    case 1
    then have v: "v = [of_nat n]" using assms by (simp add: encode_varint_def)
    have u: "unat (of_nat n :: byte) = n" using 1 by (simp add: unat_of_nat)
    have "(of_nat n :: byte) \<noteq> 253" "(of_nat n :: byte) \<noteq> 254" "(of_nat n :: byte) \<noteq> 255"
      using u 1 by force+
    with u have "read_varint ((of_nat n :: byte) # rest) = Inr (n, rest)"
      by (simp add: read_varint_def)
    then show ?thesis by (simp add: v)
  next
    case 2
    then have v: "v = 0xfd # le_bytes n 2" using assms by (simp add: encode_varint_def)
    show ?thesis using 2 by (simp add: v read_varint_def read_le_le_bytes)
  next
    case 3
    then have v: "v = 0xfe # le_bytes n 4" using assms by (simp add: encode_varint_def)
    show ?thesis using 3 by (simp add: v read_varint_def read_le_le_bytes)
  next
    case 4
    then have v: "v = 0xff # le_bytes n 8" using assms by (simp add: encode_varint_def)
    show ?thesis using 4 by (simp add: v read_varint_def read_le_le_bytes)
  next
    case 5
    then show ?thesis using assms by (simp add: encode_varint_def)
  qed
qed

lemma encode_varint_nonempty: "encode_varint n = Inr v \<Longrightarrow> v \<noteq> []"
  by (auto simp add: encode_varint_def split: if_splits)

section \<open>The serializer loop\<close>

lemma raw_serialize_loop_step:
  assumes IH: "\<And>acc. raw_serialize_loop xs acc =
     (case raw_serialize_loop xs [] of Inl e \<Rightarrow> Inl e | Inr r \<Rightarrow> Inr (acc @ r))"
  shows "(case pre of Inl e \<Rightarrow> Inl e | Inr b \<Rightarrow> raw_serialize_loop xs (acc @ b)) =
     (case (case pre of Inl e \<Rightarrow> Inl e | Inr b \<Rightarrow> raw_serialize_loop xs ([] @ b)) of
        Inl e \<Rightarrow> Inl e | Inr r \<Rightarrow> Inr (acc @ r))"
proof (cases pre)
  case (Inl e)
  then show ?thesis by simp
next
  case (Inr b)
  show ?thesis
    unfolding Inr sum.case IH [of "acc @ b"] IH [of "[] @ b"]
    by (cases "raw_serialize_loop xs []") simp_all
qed

lemma raw_serialize_loop_acc:
  "raw_serialize_loop xs acc =
     (case raw_serialize_loop xs [] of Inl e \<Rightarrow> Inl e | Inr r \<Rightarrow> Inr (acc @ r))"
proof (induction xs arbitrary: acc)
  case Nil
  show ?case by simp
next
  case (Cons x xs)
  show ?case
  proof (cases x)
    case (Op n)
    show ?thesis
      unfolding Op raw_serialize_loop.simps
      by (rule raw_serialize_loop_step) (rule Cons.IH)
  next
    case (Data d)
    have "(case int_to_little_endian (int (length d)) 1 of Inl e \<Rightarrow> Inl e
           | Inr b \<Rightarrow> raw_serialize_loop xs (acc @ (b @ d))) =
          (case (case int_to_little_endian (int (length d)) 1 of Inl e \<Rightarrow> Inl e
                 | Inr b \<Rightarrow> raw_serialize_loop xs ([] @ (b @ d))) of
             Inl e \<Rightarrow> Inl e | Inr r \<Rightarrow> Inr (acc @ r))"
      using raw_serialize_loop_step [OF Cons.IH,
          where pre = "map_sum id (\<lambda>b. b @ d) (int_to_little_endian (int (length d)) 1)"
            and acc = acc]
      by (cases "int_to_little_endian (int (length d)) 1") simp_all
    then show ?thesis
      unfolding Data raw_serialize_loop.simps .
  qed
qed

lemma raw_serialize_loop_append:
  "raw_serialize_loop (xs @ ys) acc =
     (case raw_serialize_loop xs acc of Inl e \<Rightarrow> Inl e | Inr r \<Rightarrow> raw_serialize_loop ys r)"
proof (induction xs arbitrary: acc)
  case Nil
  show ?case by simp
next
  case (Cons x xs)
  show ?case by (cases x) (simp_all add: Cons.IH split: sum.splits)
qed

lemma raw_serialize_append:
  "raw_serialize (xs @ ys) =
     (case raw_serialize xs of
        Inl e \<Rightarrow> Inl e
      | Inr x \<Rightarrow> (case raw_serialize ys of Inl e \<Rightarrow> Inl e | Inr y \<Rightarrow> Inr (x @ y)))"
proof (cases "raw_serialize_loop xs []")
  case (Inl e)
  then show ?thesis by (simp add: raw_serialize_def raw_serialize_loop_append)
next
  case (Inr x)
  have "raw_serialize_loop (xs @ ys) [] = raw_serialize_loop ys x"
    by (simp add: raw_serialize_loop_append Inr)
  also have "\<dots> = (case raw_serialize_loop ys [] of Inl e \<Rightarrow> Inl e | Inr y \<Rightarrow> Inr (x @ y))"
    by (rule raw_serialize_loop_acc)
  finally show ?thesis by (simp add: raw_serialize_def Inr)
qed

text \<open>
  C10. Script addition concatenates the item lists, and the raw serialization of the
  sum is the raw serialization of the first script followed by that of the second; when
  one of the two cannot be serialized, the sum raises the same exception. The digests
  \<open>hash160\<close> and \<open>sha256\<close> of the sum are therefore the digest of the concatenated raw
  serializations.
\<close>

theorem Script_add_serialization_homomorphism:
  "Script_add a b = a @ b
   \<and> raw_serialize (Script_add a b) =
       (case raw_serialize a of
          Inl e \<Rightarrow> Inl e
        | Inr x \<Rightarrow> (case raw_serialize b of Inl e \<Rightarrow> Inl e | Inr y \<Rightarrow> Inr (x @ y)))
   \<and> Script_digest digest (Script_add a b) =
       (case raw_serialize a of
          Inl e \<Rightarrow> Inl e
        | Inr x \<Rightarrow> (case raw_serialize b of Inl e \<Rightarrow> Inl e | Inr y \<Rightarrow> Inr (digest (x @ y))))"
  by (simp add: Script_add_def Script_digest_def raw_serialize_append split: sum.splits)

section \<open>Parsing what was serialized\<close>

lemma raw_serialize_Cons:
  "raw_serialize (x # xs) =
     (case raw_serialize [x] of
        Inl e \<Rightarrow> Inl e
      | Inr b \<Rightarrow> (case raw_serialize xs of Inl e \<Rightarrow> Inl e | Inr y \<Rightarrow> Inr (b @ y)))"
  using raw_serialize_append [of "[x]" xs] by simp

lemma raw_serialize_valid_item:
  assumes "valid_item x"
  shows "raw_serialize [x] = Inr (item_bytes x)"
proof (cases x)
  case (Op n)
  with assms have n: "0 \<le> n" "n < 256" by auto
  then have "(of_nat (nat n mod 256) :: byte) = of_int n"
    by (simp add: nat_mod_distrib)
  with n show ?thesis by (simp add: Op raw_serialize_def int_to_little_endian_def)
next
  case (Data d)
  with assms have "length d < 256" by auto
  then show ?thesis by (simp add: Data raw_serialize_def int_to_little_endian_def)
qed

lemma raw_serialize_valid:
  "list_all valid_item xs \<Longrightarrow> raw_serialize xs = Inr (wire xs)"
proof (induction xs)
  case Nil
  show ?case by (simp add: raw_serialize_def wire_def)
next
  case (Cons x xs)
  then show ?case
    by (simp add: raw_serialize_Cons [of x xs] raw_serialize_valid_item wire_def)
qed

lemma parse_loop_done: "\<not> count < len \<Longrightarrow> parse_loop len count acc s = Inr (acc, s)"
  by (subst parse_loop.simps) simp

lemma uint_byte_of_length:
  "length d \<le> 75 \<Longrightarrow> uint (of_nat (length d) :: byte) = int (length d)"
  by (simp add: uint_nat unat_of_nat)

lemma parse_loop_item:
  assumes "valid_item x" "count < len"
  shows "parse_loop len count acc (item_bytes x @ rest) =
         parse_loop len (count + length (item_bytes x)) (acc @ [x]) rest"
proof (cases x)
  case (Op n)
  with assms have n: "0 \<le> n" "n < 256" "n = 0 \<or> 76 \<le> n" by auto
  then have u: "uint (of_int n :: byte) = n"
    by (simp add: uint_word_of_int)
  show ?thesis
    using assms(2) n(3)
    by (subst parse_loop.simps) (auto simp add: Op read_def u)
next
  case (Data d)
  with assms have d: "1 \<le> length d" "length d \<le> 75" by auto
  note u = uint_byte_of_length [OF d(2)]
  have "parse_loop len count acc ((of_nat (length d) :: byte) # d @ rest) =
        parse_loop len (count + 1 + nat (int (length d))) (acc @ [Data d]) rest"
    apply (subst parse_loop.simps)
    apply (simp only: assms(2) if_True read_def take_Suc_Cons take_0 drop_Suc_Cons drop_0
        One_nat_def prod.case list.case Let_def u)
    apply (simp only: nat_int take_all drop_all append_eq_conv_conj)
    using d apply simp
    done
  then show ?thesis by (simp add: Data)
qed

lemma encode_varint_total:
  assumes "n < 2 ^ 64"
  shows "\<exists>v. encode_varint n = Inr v"
  using assms unfolding encode_varint_def by simp

lemma parse_loop_items:
  "list_all valid_item xs \<Longrightarrow> count + length (wire xs) \<le> len \<Longrightarrow>
   parse_loop len count acc (wire xs @ rest) =
   parse_loop len (count + length (wire xs)) (acc @ xs) rest"
proof (induction xs arbitrary: count acc)
  case Nil
  show ?case by (simp add: wire_def)
next
  case (Cons x xs)
  from Cons.prems have v: "valid_item x" and vs: "list_all valid_item xs" by simp_all
  have w: "wire (x # xs) = item_bytes x @ wire xs" by (simp add: wire_def)
  have lt: "count < len"
    using Cons.prems(2) by (cases x) (simp_all add: wire_def)
  have le: "count + length (item_bytes x) + length (wire xs) \<le> len"
    using Cons.prems(2) by (simp add: w)
  have "parse_loop len count acc (wire (x # xs) @ rest)
      = parse_loop len (count + length (item_bytes x)) (acc @ [x]) (wire xs @ rest)"
    using parse_loop_item [OF v lt, of acc "wire xs @ rest"] by (simp add: w)
  also have "\<dots> = parse_loop len (count + length (item_bytes x) + length (wire xs))
                     ((acc @ [x]) @ xs) rest"
    by (rule Cons.IH [OF vs le])
  finally show ?case by (simp add: w add.assoc)
qed

lemma parse_wire:
  assumes "list_all valid_item x" "encode_varint (length (wire x)) = Inr v"
  shows "parse (v @ wire x @ rest) = Inr (x, rest)"
proof -
  have "parse (v @ wire x @ rest) = parse_loop (length (wire x)) 0 [] (wire x @ rest)"
    by (simp add: parse_def read_varint_encode [OF assms(2)])
  also have "\<dots> = parse_loop (length (wire x)) (0 + length (wire x)) ([] @ x) rest"
    by (rule parse_loop_items [OF assms(1)]) simp
  also have "\<dots> = Inr (x, rest)"
    by (simp add: parse_loop_done)
  finally show ?thesis .
qed

text \<open>
  C4. For a script whose items are well-formed (opcodes that are not push lengths, data
  pushes of 1 to 75 bytes) and whose raw serialization fits a varint, \<open>serialize\<close>
  succeeds and yields the varint of the total length followed by one byte per opcode and
  a one-byte length prefix plus the raw bytes per data item, and \<open>parse\<close> of that byte
  string gives back the same items and leaves the stream empty.
\<close>

theorem parse_serialize_roundtrip:
  assumes "list_all valid_item x" and "length (wire x) < 2 ^ 64"
  shows "\<exists>v. encode_varint (length (wire x)) = Inr v
             \<and> serialize x = Inr (v @ wire x)
             \<and> parse (v @ wire x) = Inr (x, [])"
proof -
  from encode_varint_total [OF assms(2)]
  obtain v where v: "encode_varint (length (wire x)) = Inr v" ..
  have "serialize x = Inr (v @ wire x)"
    by (simp add: serialize_def raw_serialize_valid [OF assms(1)] v)
  moreover have "parse (v @ wire x) = Inr (x, [])"
    using parse_wire [OF assms(1) v, of "[]"] by simp
  ultimately show ?thesis using v by blast
qed

text \<open>An instance of the round trip: a script of five items.\<close>

theorem parse_serialize_roundtrip_witness:
  "list_all valid_item [Op 0x76, Op 0xa9, Data [1, 2, 3], Op 0x88, Op 0xac]
   \<and> length (wire [Op 0x76, Op 0xa9, Data [1, 2, 3], Op 0x88, Op 0xac]) < 2 ^ 64
   \<and> serialize [Op 0x76, Op 0xa9, Data [1, 2, 3], Op 0x88, Op 0xac]
       = Inr [0x08, 0x76, 0xa9, 0x03, 1, 2, 3, 0x88, 0xac]
   \<and> parse [0x08, 0x76, 0xa9, 0x03, 1, 2, 3, 0x88, 0xac]
       = Inr ([Op 0x76, Op 0xa9, Data [1, 2, 3], Op 0x88, Op 0xac], [])"
  using parse_serialize_roundtrip [of "[Op 0x76, Op 0xa9, Data [1, 2, 3], Op 0x88, Op 0xac]"]
  by (simp add: wire_def encode_varint_def)

section \<open>Parsing a truncated serialization\<close>

lemma wire_append: "wire (xs @ ys) = wire xs @ wire ys"
  by (simp add: wire_def)

lemma wire_single: "wire [z] = item_bytes z"
  by (simp add: wire_def)

lemma parse_loop_eof: "count < len \<Longrightarrow> parse_loop len count acc [] = Inl IndexError"
  by (subst parse_loop.simps) (simp add: read_def)

lemma parse_loop_short_data:
  assumes "1 \<le> length d" "length d \<le> 75" "count < len" "len \<le> count + 1 + length d"
  shows "parse_loop len count acc ((of_nat (length d) :: byte) # butlast d) =
         Inr (acc @ [Data (butlast d)], [])"
proof -
  note u = uint_byte_of_length [OF assms(2)]
  have "parse_loop len count acc ((of_nat (length d) :: byte) # butlast d) =
        parse_loop len (count + 1 + nat (int (length d))) (acc @ [Data (butlast d)]) []"
    apply (subst parse_loop.simps)
    apply (simp only: assms(3) if_True read_def take_Suc_Cons take_0 drop_Suc_Cons drop_0
        One_nat_def prod.case list.case Let_def u)
    using assms(1,2) apply simp
    done
  also have "\<dots> = Inr (acc @ [Data (butlast d)], [])"
    using assms(4) by (simp add: parse_loop_done)
  finally show ?thesis .
qed

text \<open>
  C5 (as the code has it). \<open>parse\<close> has no check for a stream that ends early.
  Removing the last byte of the serialization of a well-formed script makes \<open>parse\<close>
  raise only when the script is empty (the varint reader finds no byte) or ends in an
  opcode (\<open>current[0]\<close> raises \<open>IndexError\<close>); when the script ends in a data item,
  \<open>parse\<close> returns without an error, and the last item is one byte short.
\<close>

theorem parse_truncated:
  assumes "list_all valid_item x" and "serialize x = Inr bs"
  shows "parse (butlast bs) =
     (if x = [] then Inl TruncatedInputError
      else (case last x of
              Op n \<Rightarrow> Inl IndexError
            | Data d \<Rightarrow> Inr (butlast x @ [Data (butlast d)], [])))"
proof -
  from assms obtain v where v: "encode_varint (length (wire x)) = Inr v" and bs: "bs = v @ wire x"
    by (auto simp add: serialize_def raw_serialize_valid split: sum.splits)
  show ?thesis
  proof (cases "x = []")
    case True
    then have "bs = [0]" using v bs by (simp add: wire_def encode_varint_def)
    then show ?thesis using True by (simp add: parse_def read_varint_def)
  next
    case False
    then obtain ys z where x: "x = ys @ [z]" by (metis rev_exhaust)
    from assms(1) have vys: "list_all valid_item ys" and vz: "valid_item z" by (simp_all add: x)
    have w: "wire x = wire ys @ item_bytes z" by (simp add: x wire_append wire_single)
    have ne: "item_bytes z \<noteq> []" by (cases z) simp_all
    have bl: "butlast bs = v @ wire ys @ butlast (item_bytes z)"
      using ne by (simp add: bs w butlast_append)
    let ?L = "length (wire ys) + length (item_bytes z)"
    have "parse (butlast bs) = parse_loop ?L 0 [] (wire ys @ butlast (item_bytes z))"
      using read_varint_encode [OF v, of "wire ys @ butlast (item_bytes z)"]
      by (simp add: bl parse_def w)
    also have "\<dots> = parse_loop ?L (0 + length (wire ys)) ([] @ ys) (butlast (item_bytes z))"
      by (rule parse_loop_items [OF vys]) simp
    finally have p: "parse (butlast bs) = parse_loop ?L (length (wire ys)) ys (butlast (item_bytes z))"
      by simp
    show ?thesis
    proof (cases z)
      case (Op n)
      then show ?thesis using False by (simp add: p x parse_loop_eof)
    next
      case (Data d)
      with vz have d: "1 \<le> length d" "length d \<le> 75" by auto
      then have "d \<noteq> []" by auto
      then have "butlast (item_bytes z) = of_nat (length d) # butlast d" by (simp add: Data)
      then show ?thesis
        using False parse_loop_short_data [OF d, of "length (wire ys)" ?L ys]
        by (simp add: p x Data)
    qed
  qed
qed

text \<open>
  C5 as stated fails: the script with the single data item \<open>aa\<close> serializes to
  \<open>02 01 aa\<close>; without the last byte, \<open>parse\<close> returns a script with an empty data
  item and raises nothing.
\<close>

theorem parse_truncated_counterexample:
  "serialize [Data [0xaa]] = Inr [0x02, 0x01, 0xaa]
   \<and> parse (butlast [0x02, 0x01, 0xaa]) = Inr ([Data []], [])"
  apply (simp add: serialize_def raw_serialize_def int_to_little_endian_def encode_varint_def
      parse_def read_varint_def)
  apply (simp add: parse_loop.simps read_def)
  done

text \<open>An instance of the truncation theorem: a script that ends in a data item.\<close>

theorem parse_truncated_witness:
  "list_all valid_item [Op 0x76, Data [1, 2, 3]]
   \<and> serialize [Op 0x76, Data [1, 2, 3]] = Inr [0x05, 0x76, 0x03, 1, 2, 3]
   \<and> parse (butlast [0x05, 0x76, 0x03, 1, 2, 3]) = Inr ([Op 0x76, Data [1, 2]], [])"
proof -
  have s: "serialize [Op 0x76, Data [1, 2, 3]] = Inr [0x05, 0x76, 0x03, 1, 2, 3]"
    by (simp add: serialize_def raw_serialize_def int_to_little_endian_def encode_varint_def)
  have v: "list_all valid_item [Op 0x76, Data [1, 2, 3]]" by simp
  from parse_truncated [OF v s] s v show ?thesis by simp
qed

section \<open>What parse consumes\<close>

lemma parse_loop_data_step:
  assumes "count < len" "1 \<le> uint b" "uint b \<le> 75"
  shows "parse_loop len count acc (b # s) =
         parse_loop len (count + 1 + unat b) (acc @ [Data (take (unat b) s)]) (drop (unat b) s)"
  using assms by (subst parse_loop.simps) (simp add: read_def Let_def)

lemma parse_loop_op_step:
  assumes "count < len" "\<not> (1 \<le> uint b \<and> uint b \<le> 75)"
  shows "parse_loop len count acc (b # s) = parse_loop len (count + 1) (acc @ [Op (uint b)]) s"
  using assms by (subst parse_loop.simps) (auto simp add: read_def Let_def)

lemma wire_Cons: "wire (x # xs) = item_bytes x @ wire xs"
  by (simp add: wire_def)

lemma wire_Nil: "wire [] = []"
  by (simp add: wire_def)

lemma wire_eq_Nil: "wire xs = [] \<Longrightarrow> xs = []"
proof (cases xs)
  case Nil
  then show ?thesis by simp
next
  case (Cons x ys)
  assume "wire xs = []"
  then have "item_bytes x = []" by (simp add: Cons wire_Cons)
  then show ?thesis by (cases x) simp_all
qed

lemma valid_Op_uint:
  "\<not> (1 \<le> uint (b :: byte) \<and> uint b \<le> 75) \<Longrightarrow> valid_item (Op (uint b))"
proof -
  assume a: "\<not> (1 \<le> uint b \<and> uint b \<le> 75)"
  have ge: "0 \<le> uint b" by (rule uint_ge_0)
  have lt: "uint b < 256" using uint_bounded [of b] by simp
  show ?thesis
  proof (cases "uint b = 0")
    case True
    then show ?thesis by simp
  next
    case False
    with ge have "1 \<le> uint b" by linarith
    with a have "76 \<le> uint b" by linarith
    with lt show ?thesis by simp
  qed
qed

lemma parse_loop_shape:
  "parse_loop len count acc s = Inr (items, rest) \<Longrightarrow>
   \<exists>new. items = acc @ new \<and>
     ((list_all valid_item new \<and> s = wire new @ rest
         \<and> len \<le> count + length (wire new)
         \<and> count + length (wire new) \<le> max count (len + 75))
      \<or> (rest = [] \<and> (\<exists>ys b d. new = ys @ [Data d] \<and> list_all valid_item ys
            \<and> s = wire ys @ b # d \<and> 1 \<le> uint b \<and> uint b \<le> 75
            \<and> length d < unat b \<and> count + length (wire ys) < len)))"
proof (induction "length s" arbitrary: s count acc rule: less_induct)
  case less
  note res = less.prems
  show ?case
  proof (cases "count < len")
    case False
    with res have "items = acc" "rest = s" by (simp_all add: parse_loop_done)
    with False show ?thesis by (intro exI [of _ "[]"]) (simp add: wire_Nil)
  next
    case lt: True
    show ?thesis
    proof (cases s)
      case Nil
      with res lt show ?thesis by (simp add: parse_loop_eof)
    next
      case (Cons b s1)
      show ?thesis
      proof (cases "1 \<le> uint b \<and> uint b \<le> 75")
        case False
        let ?x = "Op (uint b)"
        have vx: "valid_item ?x" by (rule valid_Op_uint [OF False])
        have ib: "item_bytes ?x = [b]" by simp
        from res have rec: "parse_loop len (count + 1) (acc @ [?x]) s1 = Inr (items, rest)"
          by (simp add: Cons parse_loop_op_step [OF lt False])
        have sm: "length s1 < length s" by (simp add: Cons)
        from less.hyps [OF sm rec] obtain new where
          it: "items = (acc @ [?x]) @ new" and
          d: "(list_all valid_item new \<and> s1 = wire new @ rest
                 \<and> len \<le> count + 1 + length (wire new)
                 \<and> count + 1 + length (wire new) \<le> max (count + 1) (len + 75))
              \<or> (rest = [] \<and> (\<exists>ys b d. new = ys @ [Data d] \<and> list_all valid_item ys
                    \<and> s1 = wire ys @ b # d \<and> 1 \<le> uint b \<and> uint b \<le> 75
                    \<and> length d < unat b \<and> count + 1 + length (wire ys) < len))"
          by blast
        from d show ?thesis
        proof
          assume c: "list_all valid_item new \<and> s1 = wire new @ rest
                 \<and> len \<le> count + 1 + length (wire new)
                 \<and> count + 1 + length (wire new) \<le> max (count + 1) (len + 75)"
          show ?thesis
            apply (rule exI [of _ "?x # new"])
            apply (rule conjI)
             apply (simp add: it)
            apply (rule disjI1)
            using c vx lt apply (simp add: Cons wire_Cons del: valid_item.simps)
            done
        next
          assume "rest = [] \<and> (\<exists>ys b d. new = ys @ [Data d] \<and> list_all valid_item ys
                    \<and> s1 = wire ys @ b # d \<and> 1 \<le> uint b \<and> uint b \<le> 75
                    \<and> length d < unat b \<and> count + 1 + length (wire ys) < len)"
          then obtain ys b' d' where r: "rest = []" and
            sh: "new = ys @ [Data d']" "list_all valid_item ys" "s1 = wire ys @ b' # d'"
              "1 \<le> uint b'" "uint b' \<le> 75" "length d' < unat b'"
              "count + 1 + length (wire ys) < len"
            by blast
          show ?thesis
            apply (rule exI [of _ "?x # new"])
            apply (rule conjI)
             apply (simp add: it)
            apply (rule disjI2)
            apply (rule conjI [OF r])
            apply (rule exI [of _ "?x # ys"], rule exI [of _ b'], rule exI [of _ d'])
            using sh vx apply (simp add: Cons wire_Cons del: valid_item.simps)
            done
        qed
      next
        case True
        then have b1: "1 \<le> uint b" and b2: "uint b \<le> 75" by simp_all
        let ?n = "unat b"
        let ?d = "take ?n s1"
        let ?x = "Data ?d"
        have ui: "uint b = int ?n" by (rule uint_nat)
        have n: "1 \<le> ?n" "?n \<le> 75" using b1 b2 ui by linarith+
        from res have rec: "parse_loop len (count + 1 + ?n) (acc @ [?x]) (drop ?n s1) = Inr (items, rest)"
          by (simp add: Cons parse_loop_data_step [OF lt b1 b2])
        have sm: "length (drop ?n s1) < length s" by (simp add: Cons)
        from less.hyps [OF sm rec] obtain new where
          it: "items = (acc @ [?x]) @ new" and
          d: "(list_all valid_item new \<and> drop ?n s1 = wire new @ rest
                 \<and> len \<le> count + 1 + ?n + length (wire new)
                 \<and> count + 1 + ?n + length (wire new) \<le> max (count + 1 + ?n) (len + 75))
              \<or> (rest = [] \<and> (\<exists>ys b d. new = ys @ [Data d] \<and> list_all valid_item ys
                    \<and> drop ?n s1 = wire ys @ b # d \<and> 1 \<le> uint b \<and> uint b \<le> 75
                    \<and> length d < unat b \<and> count + 1 + ?n + length (wire ys) < len))"
          by blast
        show ?thesis
        proof (cases "length s1 < ?n")
          case short: True
          then have dr: "drop ?n s1 = []" and tk: "?d = s1" by simp_all
          from d have "rest = [] \<and> new = []"
          proof
            assume "list_all valid_item new \<and> drop ?n s1 = wire new @ rest
                 \<and> len \<le> count + 1 + ?n + length (wire new)
                 \<and> count + 1 + ?n + length (wire new) \<le> max (count + 1 + ?n) (len + 75)"
            then have "wire new @ rest = []" by (simp add: dr)
            then show ?thesis by (simp add: wire_eq_Nil)
          next
            assume "rest = [] \<and> (\<exists>ys b d. new = ys @ [Data d] \<and> list_all valid_item ys
                    \<and> drop ?n s1 = wire ys @ b # d \<and> 1 \<le> uint b \<and> uint b \<le> 75
                    \<and> length d < unat b \<and> count + 1 + ?n + length (wire ys) < len)"
            then show ?thesis by (simp add: dr)
          qed
          then have r: "rest = []" and nn: "new = []" by simp_all
          show ?thesis
            apply (rule exI [of _ "[?x]"])
            apply (rule conjI)
             apply (simp add: it nn)
            apply (rule disjI2)
            apply (rule conjI [OF r])
            apply (rule exI [of _ "[]"], rule exI [of _ b], rule exI [of _ s1])
            using short lt b1 b2 apply (simp add: Cons tk wire_Nil)
            done
        next
          case full: False
          then have ld: "length ?d = ?n" by simp
          have vx: "valid_item ?x" unfolding valid_item.simps ld by (rule conjI [OF n])
          have ob: "(of_nat ?n :: byte) = b" by simp
          have ib: "item_bytes ?x = b # ?d" unfolding item_bytes.simps ld ob ..
          have s1: "s1 = ?d @ drop ?n s1" by simp
          from d show ?thesis
          proof
            assume c: "list_all valid_item new \<and> drop ?n s1 = wire new @ rest
                 \<and> len \<le> count + 1 + ?n + length (wire new)
                 \<and> count + 1 + ?n + length (wire new) \<le> max (count + 1 + ?n) (len + 75)"
            then have sw: "s = wire (?x # new) @ rest"
              using s1 by (simp add: Cons wire_Cons ib del: item_bytes.simps)
            have lw: "length (wire (?x # new)) = 1 + ?n + length (wire new)"
              using full by (simp add: wire_Cons ib del: item_bytes.simps)
            show ?thesis
              apply (rule exI [of _ "?x # new"])
              apply (rule conjI)
               apply (simp add: it)
              apply (rule disjI1)
              apply (intro conjI)
                 apply (simp add: c vx del: valid_item.simps)
                apply (rule sw)
              using c lt n apply (simp_all add: lw)
              done
          next
            assume "rest = [] \<and> (\<exists>ys b d. new = ys @ [Data d] \<and> list_all valid_item ys
                    \<and> drop ?n s1 = wire ys @ b # d \<and> 1 \<le> uint b \<and> uint b \<le> 75
                    \<and> length d < unat b \<and> count + 1 + ?n + length (wire ys) < len)"
            then obtain ys b' d' where r: "rest = []" and
              sh: "new = ys @ [Data d']" "list_all valid_item ys" "drop ?n s1 = wire ys @ b' # d'"
                "1 \<le> uint b'" "uint b' \<le> 75" "length d' < unat b'"
                "count + 1 + ?n + length (wire ys) < len"
              by blast
            have sw: "s = wire (?x # ys) @ b' # d'"
              using s1 sh(3) by (simp add: Cons wire_Cons ib del: item_bytes.simps)
            have lw: "length (wire (?x # ys)) = 1 + ?n + length (wire ys)"
              using full by (simp add: wire_Cons ib del: item_bytes.simps)
            show ?thesis
              apply (rule exI [of _ "?x # new"])
              apply (rule conjI)
               apply (simp add: it)
              apply (rule disjI2)
              apply (rule conjI [OF r])
              apply (rule exI [of _ "?x # ys"], rule exI [of _ b'], rule exI [of _ d'])
              apply (intro conjI)
                    apply (simp add: sh(1))
                   apply (simp add: sh(2) vx del: valid_item.simps)
                  apply (rule sw)
                 apply (rule sh(4))
                apply (rule sh(5))
               apply (rule sh(6))
              using sh(7) apply (simp add: lw)
              done
          qed
        qed
      qed
    qed
  qed
qed

text \<open>
  C6 (as the code has it). \<open>parse\<close> reads a varint length and then items, one control
  byte each: a control byte of 1 to 75 takes that many following bytes as a data item,
  any other byte is an opcode item. When \<open>parse\<close> returns, the bytes consumed after
  the varint are exactly the wire encoding of the returned items; they number at least
  the declared length and at most 75 more (more when the last data push runs past the
  declared length). The one exception is a stream that ends inside the last data push:
  then that item is shorter than its control byte says and nothing is left of the
  stream.
\<close>

theorem parse_consumption:
  assumes "parse s = Inr (items, rest)"
  shows "\<exists>len body. read_varint s = Inr (len, body) \<and>
     ((list_all valid_item items \<and> body = wire items @ rest
         \<and> len \<le> length (wire items) \<and> length (wire items) \<le> len + 75)
      \<or> (rest = [] \<and> (\<exists>ys b d. items = ys @ [Data d] \<and> list_all valid_item ys
            \<and> body = wire ys @ b # d \<and> 1 \<le> uint b \<and> uint b \<le> 75
            \<and> length d < unat b \<and> length (wire ys) < len)))"
proof -
  from assms obtain len body where rv: "read_varint s = Inr (len, body)"
    and pl: "parse_loop len 0 [] body = Inr (items, rest)"
    by (auto simp add: parse_def split: sum.splits)
  from parse_loop_shape [OF pl] rv show ?thesis by simp
qed

text \<open>
  C6 as stated fails: the stream \<open>01 05 01 02 03 04 05\<close> declares one byte, and
  \<open>parse\<close> returns after consuming six.
\<close>

theorem parse_consumption_counterexample:
  "read_varint [0x01, 0x05, 1, 2, 3, 4, 5] = Inr (1, [0x05, 1, 2, 3, 4, 5])
   \<and> parse [0x01, 0x05, 1, 2, 3, 4, 5] = Inr ([Data [1, 2, 3, 4, 5]], [])
   \<and> length [0x05 :: byte, 1, 2, 3, 4, 5] - length ([] :: bytes) \<noteq> 1"
  apply (simp add: parse_def read_varint_def)
  apply (simp add: parse_loop.simps read_def)
  done

text \<open>An instance of the consumption theorem, on the same stream.\<close>

theorem parse_consumption_witness:
  "parse [0x01, 0x05, 1, 2, 3, 4, 5] = Inr ([Data [1, 2, 3, 4, 5]], [])
   \<and> read_varint [0x01, 0x05, 1, 2, 3, 4, 5] = Inr (1, wire [Data [1, 2, 3, 4, 5]] @ [])
   \<and> list_all valid_item [Data [1, 2, 3, 4, 5]]
   \<and> 1 \<le> length (wire [Data [1, 2, 3, 4, 5]])
   \<and> length (wire [Data [1, 2, 3, 4, 5]]) \<le> 1 + 75"
proof -
  have p: "parse [0x01, 0x05, 1, 2, 3, 4, 5] = Inr ([Data [1, 2, 3, 4, 5]], [])"
    apply (simp add: parse_def read_varint_def)
    apply (simp add: parse_loop.simps read_def)
    done
  from parse_consumption [OF p] p show ?thesis
    by (simp add: read_varint_def wire_def)
qed

section \<open>Running the interpreter on the sample collaborators\<close>

lemma length_sample_hash160 [simp]: "length (sample_hash160 bs) = 20"
  by (simp add: sample_hash160_def)

lemma length_sample_sha256 [simp]: "length (sample_sha256 bs) = 32"
  by (simp add: sample_sha256_def)

lemmas sample_defs = sample_externals_def sample_table_def sample_names_def
  sample_op_0_def sample_op_1_def
  sample_op_hash160_def sample_op_equal_def sample_op_checksig_def sample_tx_in_def

lemmas rule_defs = evaluate_item_def bad_op_def p2sh_rule_def p2wpkh_rule_def p2wsh_rule_def
  final_check_def

lemma parse_op_1: "parse [0x01, 0x51] = Inr ([Op 0x51], [])"
  apply (simp add: parse_def read_varint_def)
  apply (simp add: parse_loop.simps read_def)
  done

section \<open>The end of the loop\<close>

text \<open>
  C1 (as the code has it). When the item queue is empty, \<open>evaluate\<close> returns true iff
  the stack is non-empty and its top element is not the integer 0. The test is
  \<open>stack.pop() == 0\<close>, and a \<open>bytes\<close> value never equals an integer: every byte
  string on top, also the empty one and one of zero bytes only, counts as true.
\<close>

theorem evaluate_loop_exhausted:
  assumes "h ! q = []"
  shows "evaluate_loop ext tx_in q h stack = Some (Returned (final_check stack), h)
         \<and> final_check stack =
             (stack \<noteq> [] \<and> (case last stack of Num n \<Rightarrow> n \<noteq> 0 | Bytes d \<Rightarrow> True))"
proof -
  have "evaluate_loop ext tx_in q h stack = Some (Returned (final_check stack), h)"
    by (subst evaluate_loop.simps) (simp add: assms)
  moreover have "final_check stack =
      (stack \<noteq> [] \<and> (case last stack of Num n \<Rightarrow> n \<noteq> 0 | Bytes d \<Rightarrow> True))"
    by (simp add: final_check_def split: elem.splits)
  ultimately show ?thesis by simp
qed

text \<open>Two instances: an empty byte string on top, and the integer 0 on top.\<close>

theorem evaluate_loop_exhausted_witness:
  "[[] :: item list] ! 0 = []
   \<and> evaluate_loop sample_externals (sample_tx_in []) 0 [[]] [Num 7, Bytes []]
       = Some (Returned True, [[]])
   \<and> evaluate_loop sample_externals (sample_tx_in []) 0 [[]] [Bytes [1], Num 0]
       = Some (Returned False, [[]])"
proof -
  have z: "[[] :: item list] ! 0 = []" by simp
  from evaluate_loop_exhausted [OF z, of sample_externals "sample_tx_in []" "[Num 7, Bytes []]"]
    evaluate_loop_exhausted [OF z, of sample_externals "sample_tx_in []" "[Bytes [1], Num 0]"]
  show ?thesis by simp
qed

text \<open>
  C1 as stated fails: the script that pushes the single byte \<open>00\<close> evaluates to true,
  though its top element is a byte string of zero bytes only.
\<close>

theorem evaluate_truthiness_counterexample:
  "evaluate sample_externals [[Data [0x00]]] 0 (sample_tx_in [])
     = Some (Returned True, [[Data [0x00]], []])
   \<and> \<not> spec_truthy (Bytes [0x00])"
  apply (simp add: evaluate_def)
  apply (subst evaluate_loop.simps)
  apply (simp add: rule_defs)
  apply (subst evaluate_loop.simps)
  apply (simp add: rule_defs)
  done

section \<open>Opcode dispatch\<close>

text \<open>
  C7 (as the code has it). An opcode item is looked up in the opcode table; the lookup
  raises \<open>KeyError\<close> for an opcode that the table does not hold. The function found
  is called with the stack, and for the opcodes 172 to 175 also with the signing
  context's \<open>sig_hash\<close>. When the function returns failure, the opcode's name is looked
  up in the names table for the message, and \<open>evaluate\<close> returns false at once, whatever
  items remain; that lookup raises \<open>KeyError\<close> when the names table does not hold the
  opcode. When the function succeeds, the loop goes on with the stack it left.
\<close>

theorem evaluate_loop_opcode:
  assumes "h ! q = Op n # rest"
  shows "evaluate_loop ext tx_in q h stack =
     (case OP_CODE_FUNCTIONS ext n of
        None \<Rightarrow> Some (Raised KeyError, h[q := rest])
      | Some operation \<Rightarrow>
          (case operation stack
                  (if n \<in> {172, 173, 174, 175} then Some (sig_hash tx_in) else None) of
             (False, stack1) \<Rightarrow>
               (case OP_CODE_NAMES ext n of
                  None \<Rightarrow> Some (Raised KeyError, h[q := rest])
                | Some name \<Rightarrow> Some (Returned False, h[q := rest]))
           | (True, stack1) \<Rightarrow> evaluate_loop ext tx_in q (h[q := rest]) stack1))"
proof (cases "OP_CODE_FUNCTIONS ext n")
  case None
  then show ?thesis
    by (subst evaluate_loop.simps) (simp add: assms evaluate_item_def)
next
  case (Some operation)
  let ?arg = "if n \<in> {172, 173, 174, 175} then Some (sig_hash tx_in) else None"
  have item: "evaluate_item ext tx_in (Op n) q (h[q := rest]) stack =
      (case operation stack ?arg of
         (False, stack1) \<Rightarrow> bad_op ext n (h[q := rest])
       | (True, stack1) \<Rightarrow> (Inr stack1, h[q := rest]))"
  proof (cases "n \<in> {172, 173, 174, 175}")
    case True
    then show ?thesis unfolding evaluate_item_def by (simp add: Some)
  next
    case False
    then show ?thesis unfolding evaluate_item_def by (simp add: Some)
  qed
  have loop: "evaluate_loop ext tx_in q h stack =
      (case evaluate_item ext tx_in (Op n) q (h[q := rest]) stack of
         (Inl r, h1) \<Rightarrow> Some (r, h1)
       | (Inr stack1, h1) \<Rightarrow> evaluate_loop ext tx_in q h1 stack1)"
    by (subst evaluate_loop.simps) (simp add: assms)
  obtain ok stack1 where r: "operation stack ?arg = (ok, stack1)"
    by (cases "operation stack ?arg")
  show ?thesis
  proof (cases ok)
    case True
    show ?thesis unfolding loop item Some option.case r using True by simp
  next
    case False
    show ?thesis unfolding loop item Some option.case r using False
      by (simp add: bad_op_def split: option.split)
  qed
qed

text \<open>
  Two instances: \<open>OP_CHECKSIG\<close> on an empty stack fails and the next item is not run;
  \<open>OP_1\<close> succeeds and the loop goes on.
\<close>

theorem evaluate_loop_opcode_witness:
  "[[Op 0xac, Op 0x51]] ! 0 = Op 0xac # [Op 0x51]
   \<and> OP_CODE_FUNCTIONS sample_externals 0xac = Some sample_op_checksig
   \<and> sample_op_checksig [] (Some ()) = (False, [])
   \<and> evaluate_loop sample_externals (sample_tx_in []) 0 [[Op 0xac, Op 0x51]] []
       = Some (Returned False, [[Op 0x51]])
   \<and> evaluate_loop sample_externals (sample_tx_in []) 0 [[Op 0x51]] []
       = Some (Returned True, [[]])"
proof -
  have a: "[[Op 0xac, Op 0x51]] ! 0 = Op 0xac # [Op 0x51]" by simp
  have b: "OP_CODE_FUNCTIONS sample_externals 0xac = Some sample_op_checksig"
    by (simp add: sample_externals_def sample_table_def)
  have c: "[[Op 0x51]] ! 0 = Op 0x51 # []" by simp
  have e: "evaluate_loop sample_externals (sample_tx_in []) 0 [[]] [Num 1]
      = Some (Returned True, [[]])"
    by (subst evaluate_loop.simps) (simp add: final_check_def)
  from evaluate_loop_opcode [OF a, of sample_externals "sample_tx_in []" "[]"]
    evaluate_loop_opcode [OF c, of sample_externals "sample_tx_in []" "[]"] a b e
  show ?thesis
    by (simp add: sample_defs)
qed

text \<open>
  C7 as stated fails: \<open>parse\<close> turns the byte \<open>ff\<close> into the opcode item 255, and on
  a table that does not hold 255 the evaluation of that script raises \<open>KeyError\<close>
  instead of returning a boolean.
\<close>

theorem evaluate_opcode_counterexample:
  "parse [0x01, 0xff] = Inr ([Op 0xff], [])
   \<and> OP_CODE_FUNCTIONS sample_externals 0xff = None
   \<and> evaluate sample_externals [[Op 0xff]] 0 (sample_tx_in [])
       = Some (Raised KeyError, [[Op 0xff], []])"
proof -
  have p: "parse [0x01, 0xff] = Inr ([Op 0xff], [])"
    apply (simp add: parse_def read_varint_def)
    apply (simp add: parse_loop.simps read_def)
    done
  have t: "OP_CODE_FUNCTIONS sample_externals 0xff = None"
    by (simp add: sample_externals_def sample_table_def)
  have r: "evaluate sample_externals [[Op 0xff]] 0 (sample_tx_in [])
       = Some (Raised KeyError, [[Op 0xff], []])"
    apply (simp add: evaluate_def)
    apply (subst evaluate_loop.simps)
    apply (simp add: evaluate_item_def t)
    done
  from p t r show ?thesis by simp
qed

section \<open>The p2sh rule\<close>

lemma p2sh_rule_triggered:
  assumes "q < length h" and "h ! q = [Op 0xa9, Data h160, Op 0x87]" and "length h160 = 20"
  shows "p2sh_rule ext item q h stack =
    (case encode_varint (length item) of
       Inl e \<Rightarrow> (Inl (Raised e), h)
     | Inr v \<Rightarrow>
         (case op_hash160 ext stack of
            (False, stack1) \<Rightarrow> (Inl (Returned False), h[q := []])
          | (True, stack1) \<Rightarrow>
              (case op_equal ext (stack1 @ [Bytes h160]) of
                 (False, stack2) \<Rightarrow> (Inl (Returned False), h[q := []])
               | (True, stack2) \<Rightarrow>
                   if stack2 = [] then (Inl (Raised IndexError), h[q := []])
                   else if last stack2 \<noteq> Num 1 then (Inl (Returned False), h[q := []])
                   else
                     (case parse (v @ item) of
                        Inl e \<Rightarrow> (Inl (Raised e), h[q := []])
                      | Inr (script, s) \<Rightarrow> (Inr (butlast stack2), h[q := script])))))"
  using assms
  by (simp add: p2sh_rule_def Let_def
      cong: sum.case_cong prod.case_cong bool.case_cong if_cong)

lemma p2sh_rule_not_triggered:
  assumes "\<not> is_p2sh_script_pubkey (h ! q)"
  shows "p2sh_rule ext item q h stack = (Inr stack, h)"
proof -
  have "\<not> (length (h ! q) = 3 \<and> h ! q ! 0 = Op 0xa9
           \<and> is_bytes_item (h ! q ! 1) 20 \<and> h ! q ! 2 = Op 0x87)"
    using assms unfolding is_p2sh_script_pubkey_def .
  then show ?thesis unfolding p2sh_rule_def by (simp only: if_False)
qed

text \<open>
  C2 (as the code has it). The rule fires after a data push when the remaining queue
  consists of exactly three items: opcode \<open>0xa9\<close>, a 20-byte data item and opcode
  \<open>0x87\<close>. Then the length-prefixed serialization of the pushed item is formed, the
  three items are taken off the queue, \<open>op_hash160\<close>, the push of the hash and
  \<open>op_equal\<close> run on the stack, and \<open>evaluate\<close> returns false when one of the two
  fails or the popped result is not the integer 1. Otherwise the parsed redeem script's
  items become the queue (it is empty at that point), the witness rules are tried, and
  the loop goes on.
\<close>

theorem evaluate_loop_p2sh:
  assumes "q < length h" and "h ! q = [Data item, Op 0xa9, Data h160, Op 0x87]"
    and "length h160 = 20"
  shows "evaluate_loop ext tx_in q h stack =
    (case encode_varint (length item) of
       Inl e \<Rightarrow> Some (Raised e, h[q := [Op 0xa9, Data h160, Op 0x87]])
     | Inr v \<Rightarrow>
         (case op_hash160 ext (stack @ [Bytes item]) of
            (False, stack1) \<Rightarrow> Some (Returned False, h[q := []])
          | (True, stack1) \<Rightarrow>
              (case op_equal ext (stack1 @ [Bytes h160]) of
                 (False, stack2) \<Rightarrow> Some (Returned False, h[q := []])
               | (True, stack2) \<Rightarrow>
                   if stack2 = [] then Some (Raised IndexError, h[q := []])
                   else if last stack2 \<noteq> Num 1 then Some (Returned False, h[q := []])
                   else
                     (case parse (v @ item) of
                        Inl e \<Rightarrow> Some (Raised e, h[q := []])
                      | Inr (script, s) \<Rightarrow>
                          (case p2wpkh_rule tx_in q (h[q := script]) (butlast stack2) of
                             (stack3, h3) \<Rightarrow>
                               (case p2wsh_rule ext tx_in q h3 stack3 of
                                  (Inl r, h4) \<Rightarrow> Some (r, h4)
                                | (Inr stack4, h4) \<Rightarrow> evaluate_loop ext tx_in q h4 stack4))))))"
proof -
  let ?h0 = "h[q := [Op 0xa9, Data h160, Op 0x87]]"
  have unfold: "evaluate_loop ext tx_in q h stack =
      (case evaluate_item ext tx_in (Data item) q ?h0 stack of
         (Inl r, h1) \<Rightarrow> Some (r, h1)
       | (Inr stack1, h1) \<Rightarrow> evaluate_loop ext tx_in q h1 stack1)"
    by (subst evaluate_loop.simps) (simp add: assms(2))
  have q0: "q < length ?h0" and h0q: "?h0 ! q = [Op 0xa9, Data h160, Op 0x87]"
    using assms(1) by simp_all
  note rule = p2sh_rule_triggered [OF q0 h0q assms(3), of ext item "stack @ [Bytes item]"]
  show ?thesis
  proof (cases "encode_varint (length item)")
    case (Inl e)
    then show ?thesis by (simp add: unfold evaluate_item_def rule)
  next
    case v: (Inr v)
    obtain ok1 stack1 where a: "op_hash160 ext (stack @ [Bytes item]) = (ok1, stack1)"
      by (cases "op_hash160 ext (stack @ [Bytes item])")
    obtain ok2 stack2 where b: "op_equal ext (stack1 @ [Bytes h160]) = (ok2, stack2)"
      by (cases "op_equal ext (stack1 @ [Bytes h160])")
    note defs = unfold evaluate_item_def rule v a
    show ?thesis
    proof (cases ok1)
      case False
      then show ?thesis by (simp add: defs)
    next
      case ok1: True
      show ?thesis
      proof (cases ok2)
        case False
        with ok1 show ?thesis by (simp add: defs b)
      next
        case ok2: True
        show ?thesis
        proof (cases "stack2 = []")
          case True
          with ok1 ok2 show ?thesis by (simp add: defs b)
        next
          case ne: False
          show ?thesis
          proof (cases "last stack2 = Num 1")
            case False
            with ok1 ok2 ne show ?thesis by (simp add: defs b)
          next
            case one: True
            show ?thesis
            proof (cases "parse (v @ item)")
              case (Inl e)
              with ok1 ok2 ne one show ?thesis by (simp add: defs b)
            next
              case (Inr p)
              obtain script s where p: "p = (script, s)" by (cases p)
              obtain stack3 h3 where
                c: "p2wpkh_rule tx_in q (h[q := script]) (butlast stack2) = (stack3, h3)"
                by (cases "p2wpkh_rule tx_in q (h[q := script]) (butlast stack2)")
              from ok1 ok2 ne one show ?thesis by (simp add: defs b Inr p c)
            qed
          qed
        qed
      qed
    qed
  qed
qed

text \<open>An instance: the redeem script \<open>OP_1\<close> behind its hash, run to the end.\<close>

theorem evaluate_loop_p2sh_witness:
  "(0::nat) < length [[Data [0x51], Op 0xa9, Data (sample_hash160 [0x51]), Op 0x87]]
   \<and> [[Data [0x51], Op 0xa9, Data (sample_hash160 [0x51]), Op 0x87]] ! 0
       = [Data [0x51], Op 0xa9, Data (sample_hash160 [0x51]), Op 0x87]
   \<and> length (sample_hash160 [0x51]) = 20
   \<and> evaluate_loop sample_externals (sample_tx_in []) 0
        [[Data [0x51], Op 0xa9, Data (sample_hash160 [0x51]), Op 0x87]] []
       = Some (Returned True, [[]])"
proof -
  let ?h = "[[Data [0x51], Op 0xa9, Data (sample_hash160 [0x51]), Op 0x87]]"
  have a: "(0::nat) < length ?h" by simp
  have b: "?h ! 0 = [Data [0x51], Op 0xa9, Data (sample_hash160 [0x51]), Op 0x87]" by simp
  have c: "length (sample_hash160 [0x51]) = 20" by simp
  have run: "evaluate_loop sample_externals (sample_tx_in []) 0 [[Op 0x51]] []
      = Some (Returned True, [[]])"
    apply (subst evaluate_loop.simps)
    apply (simp add: rule_defs sample_defs)
    apply (subst evaluate_loop.simps)
    apply (simp add: rule_defs sample_defs)
    done
  from evaluate_loop_p2sh [OF a b c, of sample_externals "sample_tx_in []" "[]"] run
  show ?thesis
    by (simp add: encode_varint_def parse_op_1 sample_defs p2wpkh_rule_def p2wsh_rule_def)
qed

text \<open>
  C2 as stated fails: with four items left, of which the next three are \<open>0xa9\<close>, a
  20-byte item and \<open>0x87\<close>, the data push is followed by no rewrite: the three items
  stay in the queue.
\<close>

theorem evaluate_item_p2sh_counterexample:
  "take 3 [Op 0xa9, Data (sample_hash160 [0x51]), Op 0x87, Op 0x51]
     = [Op 0xa9, Data (sample_hash160 [0x51]), Op 0x87]
   \<and> length (sample_hash160 [0x51]) = 20
   \<and> evaluate_item sample_externals (sample_tx_in []) (Data [0x51]) 0
        [[Op 0xa9, Data (sample_hash160 [0x51]), Op 0x87, Op 0x51]] []
       = (Inr [Bytes [0x51]], [[Op 0xa9, Data (sample_hash160 [0x51]), Op 0x87, Op 0x51]])"
  by (simp add: rule_defs)

section \<open>The witness-program rules\<close>

lemma witness_stack_shape:
  "(length (stack @ [Bytes d]) = 2 \<and> (stack @ [Bytes d]) ! 0 = Num 0
      \<and> is_bytes_elem ((stack @ [Bytes d]) ! 1) n)
   = (stack = [Num 0] \<and> length d = n)"
proof (cases stack)
  case Nil
  then show ?thesis by simp
next
  case (Cons x xs)
  then show ?thesis by (cases xs) auto
qed

lemma p2wpkh_rule_pushed:
  "p2wpkh_rule tx_in q h (stack @ [Bytes d]) =
     (if stack = [Num 0] \<and> length d = 20 then
        ([], h[q := h ! q @ map Data (witness_program tx_in) @ p2pkh_script (Data d)])
      else (stack @ [Bytes d], h))"
proof (cases "stack = [Num 0] \<and> length d = 20")
  case True
  then show ?thesis
    by (cases "q < length h") (simp_all add: p2wpkh_rule_def Let_def list_update_beyond)
next
  case False
  then have "\<not> (length (stack @ [Bytes d]) = 2 \<and> (stack @ [Bytes d]) ! 0 = Num 0
      \<and> is_bytes_elem ((stack @ [Bytes d]) ! 1) 20)"
    unfolding witness_stack_shape .
  then show ?thesis using False unfolding p2wpkh_rule_def by (simp only: if_False)
qed

lemma p2wsh_rule_pushed:
  assumes "q < length h"
  shows "p2wsh_rule ext tx_in q h (stack @ [Bytes d]) =
     (if stack = [Num 0] \<and> length d = 32 then
        (if witness_program tx_in = [] then (Inl (Raised IndexError), h)
         else if d \<noteq> sha256 ext (last (witness_program tx_in)) then
           (Inl (Returned False), h[q := h ! q @ map Data (butlast (witness_program tx_in))])
         else
           (case encode_varint (length (last (witness_program tx_in))) of
              Inl e \<Rightarrow>
                (Inl (Raised e), h[q := h ! q @ map Data (butlast (witness_program tx_in))])
            | Inr v \<Rightarrow>
                (case parse (v @ last (witness_program tx_in)) of
                   Inl e \<Rightarrow>
                     (Inl (Raised e),
                      h[q := h ! q @ map Data (butlast (witness_program tx_in))])
                 | Inr (script, s) \<Rightarrow>
                     (Inr [],
                      h[q := h ! q @ map Data (butlast (witness_program tx_in)) @ script]))))
      else (Inr (stack @ [Bytes d]), h))"
proof (cases "stack = [Num 0] \<and> length d = 32")
  case True
  then show ?thesis
    using assms
    by (simp add: p2wsh_rule_def Let_def
        cong: sum.case_cong prod.case_cong if_cong)
next
  case False
  then have "\<not> (length (stack @ [Bytes d]) = 2 \<and> (stack @ [Bytes d]) ! 0 = Num 0
      \<and> is_bytes_elem ((stack @ [Bytes d]) ! 1) 32)"
    unfolding witness_stack_shape .
  then show ?thesis using False unfolding p2wsh_rule_def by (simp only: if_False)
qed

text \<open>
  C3 (as the code has it). After a data push that the p2sh rule does not take, the
  stack has exactly two items with the integer 0 at the bottom (\<open>stack[0]\<close>) and the
  pushed byte string on top iff the stack was \<open>[0]\<close> before the push. If the pushed
  string has 20 bytes, both are popped and the witness-program items, then the items of
  the P2PKH script built from the hash, are appended to the end of the remaining queue.
  If it has 32 bytes, both are popped, all witness-program items but the last are
  appended to the end of the queue, the sha256 digest of the last witness item is
  compared with the 32 bytes (a mismatch returns false), and the parsed witness script's
  items are appended. In every other case the push is all that happens.
\<close>

theorem evaluate_item_witness_program:
  assumes "q < length h" and "\<not> is_p2sh_script_pubkey (h ! q)"
  shows "evaluate_item ext tx_in (Data d) q h stack =
     (if stack = [Num 0] \<and> length d = 20 then
        (Inr [], h[q := h ! q @ map Data (witness_program tx_in) @ p2pkh_script (Data d)])
      else if stack = [Num 0] \<and> length d = 32 then
        (if witness_program tx_in = [] then (Inl (Raised IndexError), h)
         else if d \<noteq> sha256 ext (last (witness_program tx_in)) then
           (Inl (Returned False), h[q := h ! q @ map Data (butlast (witness_program tx_in))])
         else
           (case encode_varint (length (last (witness_program tx_in))) of
              Inl e \<Rightarrow>
                (Inl (Raised e), h[q := h ! q @ map Data (butlast (witness_program tx_in))])
            | Inr v \<Rightarrow>
                (case parse (v @ last (witness_program tx_in)) of
                   Inl e \<Rightarrow>
                     (Inl (Raised e),
                      h[q := h ! q @ map Data (butlast (witness_program tx_in))])
                 | Inr (script, s) \<Rightarrow>
                     (Inr [],
                      h[q := h ! q @ map Data (butlast (witness_program tx_in)) @ script]))))
      else (Inr (stack @ [Bytes d]), h))"
proof -
  have e: "evaluate_item ext tx_in (Data d) q h stack =
      (case p2wpkh_rule tx_in q h (stack @ [Bytes d]) of
         (stack2, h2) \<Rightarrow> p2wsh_rule ext tx_in q h2 stack2)"
    by (simp add: evaluate_item_def p2sh_rule_not_triggered [OF assms(2)])
  show ?thesis
  proof (cases "stack = [Num 0] \<and> length d = 20")
    case True
    have w: "p2wsh_rule ext tx_in q h' [] = (Inr [], h')" for h'
      by (simp add: p2wsh_rule_def)
    show ?thesis unfolding e p2wpkh_rule_pushed using True by (simp add: w)
  next
    case False
    then show ?thesis
      by (simp only: e p2wpkh_rule_pushed if_False prod.case p2wsh_rule_pushed [OF assms(1)])
  qed
qed

text \<open>An instance of the 20-byte case and one of the 32-byte case, each with one item left in
  the queue.\<close>

theorem evaluate_item_witness_program_witness:
  "(0::nat) < length [[Op 0x51]]
   \<and> \<not> is_p2sh_script_pubkey ([[Op 0x51]] ! 0)
   \<and> evaluate_item sample_externals (sample_tx_in [[7]]) (Data (sample_hash160 [1])) 0
        [[Op 0x51]] [Num 0]
       = (Inr [], [[Op 0x51, Data [7],
                    Op 0x76, Op 0xa9, Data (sample_hash160 [1]), Op 0x88, Op 0xac]])
   \<and> evaluate_item sample_externals (sample_tx_in [[7], [0x51]]) (Data (sample_sha256 [0x51])) 0
        [[Op 0x51]] [Num 0]
       = (Inr [], [[Op 0x51, Data [7], Op 0x51]])"
proof -
  have a: "(0::nat) < length [[Op 0x51]]" by simp
  have b: "\<not> is_p2sh_script_pubkey ([[Op 0x51]] ! 0)" by (simp add: is_p2sh_script_pubkey_def)
  from evaluate_item_witness_program [OF a b, of sample_externals "sample_tx_in [[7]]"
      "sample_hash160 [1]" "[Num 0]"]
    evaluate_item_witness_program [OF a b, of sample_externals "sample_tx_in [[7], [0x51]]"
      "sample_sha256 [0x51]" "[Num 0]"] a b
  show ?thesis
    by (simp add: sample_tx_in_def p2pkh_script_def sample_externals_def encode_varint_def
        parse_op_1)
qed

text \<open>
  C3 as stated fails twice. With a 20-byte string below and the byte \<open>00\<close> pushed on
  top, nothing is rewritten. And where the rule fires, the witness items and the P2PKH
  script are put behind the remaining items, not in front of them.
\<close>

theorem evaluate_item_witness_program_counterexample:
  "evaluate_item sample_externals (sample_tx_in [[7]]) (Data [0x00]) 0
        [[Op 0x51]] [Bytes (sample_hash160 [1])]
     = (Inr [Bytes (sample_hash160 [1]), Bytes [0x00]], [[Op 0x51]])
   \<and> evaluate_item sample_externals (sample_tx_in [[7]]) (Data (sample_hash160 [1])) 0
        [[Op 0x51]] [Num 0]
     = (Inr [], [[Op 0x51] @ [Data [7]] @ p2pkh_script (Data (sample_hash160 [1]))])
   \<and> [Op 0x51] @ [Data [7]] @ p2pkh_script (Data (sample_hash160 [1]))
       \<noteq> p2pkh_script (Data (sample_hash160 [1])) @ [Data [7]] @ [Op 0x51]"
  by (simp add: rule_defs sample_tx_in_def p2pkh_script_def)

section \<open>The script is not changed by its evaluation\<close>

lemma p2sh_rule_frame:
  "p2sh_rule ext item q h stack = (x, h') \<Longrightarrow> h'[q := []] = h[q := []]"
  by (auto simp add: p2sh_rule_def Let_def split: if_splits sum.splits prod.splits bool.splits)

lemma p2wpkh_rule_frame:
  "p2wpkh_rule tx_in q h stack = (x, h') \<Longrightarrow> h'[q := []] = h[q := []]"
  by (auto simp add: p2wpkh_rule_def Let_def split: if_splits)

lemma p2wsh_rule_frame:
  "p2wsh_rule ext tx_in q h stack = (x, h') \<Longrightarrow> h'[q := []] = h[q := []]"
  by (auto simp add: p2wsh_rule_def Let_def split: if_splits sum.splits prod.splits)

lemma evaluate_item_frame:
  assumes "evaluate_item ext tx_in item q h stack = (x, h')"
  shows "h'[q := []] = h[q := []]"
proof (cases item)
  case (Op n)
  with assms show ?thesis
    by (auto simp add: evaluate_item_def bad_op_def
        split: option.splits prod.splits bool.splits if_splits)
next
  case (Data d)
  obtain x1 h1 where a: "p2sh_rule ext d q h (stack @ [Bytes d]) = (x1, h1)"
    by (cases "p2sh_rule ext d q h (stack @ [Bytes d])")
  note f1 = p2sh_rule_frame [OF a]
  show ?thesis
  proof (cases x1)
    case (Inl r)
    with assms a Data have "h' = h1" by (simp add: evaluate_item_def)
    with f1 show ?thesis by simp
  next
    case (Inr stack1)
    obtain stack2 h2 where b: "p2wpkh_rule tx_in q h1 stack1 = (stack2, h2)"
      by (cases "p2wpkh_rule tx_in q h1 stack1")
    from assms a Data Inr b have c: "p2wsh_rule ext tx_in q h2 stack2 = (x, h')"
      by (simp add: evaluate_item_def)
    from p2wsh_rule_frame [OF c] p2wpkh_rule_frame [OF b] f1 show ?thesis by simp
  qed
qed

lemma evaluate_loop_frame_snd:
  assumes "evaluate_loop ext0 tx_in0 q0 h0 stack0 = Some y0"
  shows "(snd y0)[q0 := []] = h0[q0 := []]"
proof (rule evaluate_loop.raw_induct
    [where P = "\<lambda>ext tx_in q h stack y. (snd y)[q := []] = h[q := []]", OF _ assms])
  fix evaluate_loop :: "'a externals \<Rightarrow> 'a tx_in \<Rightarrow> ref \<Rightarrow> heap \<Rightarrow> elem list \<Rightarrow> (result \<times> heap) option"
  fix ext tx_in q h stack y
  assume 1: "\<And>ext tx_in q h stack y. evaluate_loop ext tx_in q h stack = Some y
               \<Longrightarrow> (snd y)[q := []] = h[q := []]"
    "(case h ! q of
        [] \<Rightarrow> Some (Returned (final_check stack), h)
      | item # rest \<Rightarrow>
          (case evaluate_item ext tx_in item q (h[q := rest]) stack of
             (Inl r, h1) \<Rightarrow> Some (r, h1)
           | (Inr stack1, h1) \<Rightarrow> evaluate_loop ext tx_in q h1 stack1)) = Some y"
  show "(snd y)[q := []] = h[q := []]"
  proof (cases "h ! q")
    case Nil
    with 1(2) have "y = (Returned (final_check stack), h)" by simp
    then show ?thesis by simp
  next
    case (Cons item rest)
    obtain x h1 where e: "evaluate_item ext tx_in item q (h[q := rest]) stack = (x, h1)"
      by (cases "evaluate_item ext tx_in item q (h[q := rest]) stack")
    from evaluate_item_frame [OF e] have f: "h1[q := []] = h[q := []]" by simp
    show ?thesis
    proof (cases x)
      case (Inl res)
      with 1(2) Cons e have "y = (res, h1)" by simp
      with f show ?thesis by simp
    next
      case (Inr stack1)
      with 1(2) Cons e have "evaluate_loop ext tx_in q h1 stack1 = Some y" by simp
      from 1(1) [OF this] f show ?thesis by simp
    qed
  qed
qed

lemma evaluate_loop_frame:
  assumes "evaluate_loop ext tx_in q h stack = Some (r, h')"
  shows "h'[q := []] = h[q := []]"
  using evaluate_loop_frame_snd [OF assms] by simp

text \<open>
  C8. \<open>evaluate\<close> works on a copy of the item list: when it returns, with either
  result or with an exception, the list object of the script holds the same items in the
  same order as before, and so does every other list object that existed before the call.
\<close>

theorem evaluate_preserves_items:
  assumes "self < length h" and "evaluate ext h self tx_in = Some (r, h')"
  shows "h' ! self = h ! self \<and> take (length h) h' = h"
proof -
  from assms(2) have "evaluate_loop ext tx_in (length h) (h @ [h ! self]) [] = Some (r, h')"
    by (simp add: evaluate_def Let_def)
  from evaluate_loop_frame [OF this] have eq: "h'[length h := []] = h @ [[]]" by simp
  have "take (length h) h' = take (length h) (h'[length h := []])" by simp
  also have "\<dots> = h" by (simp add: eq)
  finally have t: "take (length h) h' = h" .
  have "h' ! self = take (length h) h' ! self" using assms(1) by simp
  with t show ?thesis by simp
qed

text \<open>An instance: a run through the p2sh rule, which rewrites the queue.\<close>

theorem evaluate_preserves_items_witness:
  "(0::nat) < length [[Data [0x51], Op 0xa9, Data (sample_hash160 [0x51]), Op 0x87]]
   \<and> evaluate sample_externals [[Data [0x51], Op 0xa9, Data (sample_hash160 [0x51]), Op 0x87]] 0
        (sample_tx_in [])
       = Some (Returned True,
               [[Data [0x51], Op 0xa9, Data (sample_hash160 [0x51]), Op 0x87], []])
   \<and> [[Data [0x51], Op 0xa9, Data (sample_hash160 [0x51]), Op 0x87], []] ! 0
       = [[Data [0x51], Op 0xa9, Data (sample_hash160 [0x51]), Op 0x87]] ! 0"
proof -
  let ?s = "[Data [0x51], Op 0xa9, Data (sample_hash160 [0x51]), Op 0x87]"
  have a: "(0::nat) < length [?s]" by simp
  have run: "evaluate sample_externals [?s] 0 (sample_tx_in []) = Some (Returned True, [?s, []])"
    apply (simp add: evaluate_def)
    apply (subst evaluate_loop.simps)
    apply (simp add: rule_defs sample_defs encode_varint_def parse_op_1)
    apply (subst evaluate_loop.simps)
    apply (simp add: rule_defs sample_defs)
    apply (subst evaluate_loop.simps)
    apply (simp add: rule_defs sample_defs)
    done
  from evaluate_preserves_items [OF a run] run show ?thesis by simp
qed

section \<open>Addresses\<close>

lemma is_bytes_item_iff: "is_bytes_item x n = (\<exists>h. x = Data h \<and> length h = n)"
  by (cases x) auto

lemma is_p2pkh_iff:
  "is_p2pkh_script_pubkey self = (\<exists>h. length h = 20 \<and> self = p2pkh_script (Data h))"
  by (auto simp add: is_p2pkh_script_pubkey_def p2pkh_script_def is_bytes_item_iff
      eval_nat_numeral length_Suc_conv)

lemma is_p2sh_iff:
  "is_p2sh_script_pubkey self = (\<exists>h. length h = 20 \<and> self = p2sh_script (Data h))"
  by (auto simp add: is_p2sh_script_pubkey_def p2sh_script_def is_bytes_item_iff
      eval_nat_numeral length_Suc_conv)

lemma is_p2wpkh_iff:
  "is_p2wpkh_script_pubkey self = (\<exists>h. length h = 20 \<and> self = p2wpkh_script (Data h))"
  by (auto simp add: is_p2wpkh_script_pubkey_def p2wpkh_script_def is_bytes_item_iff
      eval_nat_numeral length_Suc_conv)

lemma is_p2wsh_iff:
  "is_p2wsh_script_pubkey self = (\<exists>h. length h = 32 \<and> self = p2wsh_script (Data h))"
  by (auto simp add: is_p2wsh_script_pubkey_def p2wsh_script_def is_bytes_item_iff
      eval_nat_numeral length_Suc_conv)

lemma raw_serialize_witness_script:
  assumes "length h < 256"
  shows "raw_serialize [Op 0x00, Data h] = Inr (0x00 # of_nat (length h) # h)"
  using assms by (simp add: raw_serialize_def int_to_little_endian_def)

text \<open>
  C9. \<open>address\<close> compares the item list with four templates: P2PKH, P2SH, P2WPKH and
  P2WSH. On a match it returns what the matching encoder gives for the embedded hash
  item (for the two witness templates: for the raw serialization and the prefix
  \<open>tb\<close> or \<open>bc\<close>) and the network flag; when no template matches it returns nothing.
\<close>

theorem address_templates:
  "(length h1 = 20 \<longrightarrow>
      address ext (p2pkh_script (Data h1)) testnet
        = Inr (Some (h160_to_p2pkh_address ext (Data h1) testnet)))
   \<and> (length h2 = 20 \<longrightarrow>
      address ext (p2sh_script (Data h2)) testnet
        = Inr (Some (h160_to_p2sh_address ext (Data h2) testnet)))
   \<and> (length h3 = 20 \<longrightarrow>
      address ext (p2wpkh_script (Data h3)) testnet
        = Inr (Some (encode_bech32_checksum ext (0x00 # 0x14 # h3) (bech32_prefix testnet))))
   \<and> (length h4 = 32 \<longrightarrow>
      address ext (p2wsh_script (Data h4)) testnet
        = Inr (Some (encode_bech32_checksum ext (0x00 # 0x20 # h4) (bech32_prefix testnet))))
   \<and> ((\<forall>h. length h = 20 \<longrightarrow>
            self \<noteq> p2pkh_script (Data h) \<and> self \<noteq> p2sh_script (Data h)
            \<and> self \<noteq> p2wpkh_script (Data h))
        \<and> (\<forall>h. length h = 32 \<longrightarrow> self \<noteq> p2wsh_script (Data h))
      \<longrightarrow> address ext self testnet = Inr None)"
proof (intro conjI impI)
  assume "length h1 = 20"
  then have "is_p2pkh_script_pubkey (p2pkh_script (Data h1))" by (auto simp add: is_p2pkh_iff)
  then show "address ext (p2pkh_script (Data h1)) testnet
        = Inr (Some (h160_to_p2pkh_address ext (Data h1) testnet))"
    by (simp add: address_def) (simp add: p2pkh_script_def)
next
  assume "length h2 = 20"
  then have "is_p2sh_script_pubkey (p2sh_script (Data h2))" by (auto simp add: is_p2sh_iff)
  moreover have "\<not> is_p2pkh_script_pubkey (p2sh_script (Data h2))"
    by (simp add: is_p2pkh_script_pubkey_def p2sh_script_def)
  ultimately show "address ext (p2sh_script (Data h2)) testnet
        = Inr (Some (h160_to_p2sh_address ext (Data h2) testnet))"
    by (simp add: address_def) (simp add: p2sh_script_def)
next
  assume l: "length h3 = 20"
  then have "is_p2wpkh_script_pubkey (p2wpkh_script (Data h3))" by (auto simp add: is_p2wpkh_iff)
  moreover have "\<not> is_p2pkh_script_pubkey (p2wpkh_script (Data h3))"
    "\<not> is_p2sh_script_pubkey (p2wpkh_script (Data h3))"
    by (simp_all add: is_p2pkh_script_pubkey_def is_p2sh_script_pubkey_def p2wpkh_script_def)
  moreover have "raw_serialize (p2wpkh_script (Data h3)) = Inr (0x00 # 0x14 # h3)"
    using l raw_serialize_witness_script [of h3] by (simp add: p2wpkh_script_def)
  ultimately show "address ext (p2wpkh_script (Data h3)) testnet
        = Inr (Some (encode_bech32_checksum ext (0x00 # 0x14 # h3) (bech32_prefix testnet)))"
    by (simp add: address_def)
next
  assume l: "length h4 = 32"
  then have "is_p2wsh_script_pubkey (p2wsh_script (Data h4))" by (auto simp add: is_p2wsh_iff)
  moreover have "\<not> is_p2pkh_script_pubkey (p2wsh_script (Data h4))"
    "\<not> is_p2sh_script_pubkey (p2wsh_script (Data h4))"
    "\<not> is_p2wpkh_script_pubkey (p2wsh_script (Data h4))"
    using l
    by (simp_all add: is_p2pkh_script_pubkey_def is_p2sh_script_pubkey_def
        is_p2wpkh_script_pubkey_def p2wsh_script_def)
  moreover have "raw_serialize (p2wsh_script (Data h4)) = Inr (0x00 # 0x20 # h4)"
    using l raw_serialize_witness_script [of h4] by (simp add: p2wsh_script_def)
  ultimately show "address ext (p2wsh_script (Data h4)) testnet
        = Inr (Some (encode_bech32_checksum ext (0x00 # 0x20 # h4) (bech32_prefix testnet)))"
    by (simp add: address_def)
next
  assume a: "(\<forall>h. length h = 20 \<longrightarrow>
            self \<noteq> p2pkh_script (Data h) \<and> self \<noteq> p2sh_script (Data h)
            \<and> self \<noteq> p2wpkh_script (Data h))
        \<and> (\<forall>h. length h = 32 \<longrightarrow> self \<noteq> p2wsh_script (Data h))"
  then have "\<not> is_p2pkh_script_pubkey self" "\<not> is_p2sh_script_pubkey self"
    "\<not> is_p2wpkh_script_pubkey self" "\<not> is_p2wsh_script_pubkey self"
    by (auto simp add: is_p2pkh_iff is_p2sh_iff is_p2wpkh_iff is_p2wsh_iff)
  then show "address ext self testnet = Inr None"
    by (simp add: address_def)
qed

text \<open>An instance for each template, and a script that matches none.\<close>

theorem address_templates_witness:
  "length (sample_hash160 [1]) = 20 \<and> length (sample_sha256 [2]) = 32
   \<and> address sample_externals (p2pkh_script (Data (sample_hash160 [1]))) False = Inr (Some ''1'')
   \<and> address sample_externals (p2sh_script (Data (sample_hash160 [1]))) True = Inr (Some ''2'')
   \<and> address sample_externals (p2wpkh_script (Data (sample_hash160 [1]))) True = Inr (Some ''tb1'')
   \<and> address sample_externals (p2wsh_script (Data (sample_sha256 [2]))) False = Inr (Some ''bc1'')
   \<and> address sample_externals [Op 0x51] False = Inr None"
proof -
  have l: "length (sample_hash160 [1]) = 20" "length (sample_sha256 [2]) = 32"
    by (simp_all add: sample_hash160_def sample_sha256_def)
  have n: "(\<forall>h. length h = 20 \<longrightarrow>
            [Op 0x51] \<noteq> p2pkh_script (Data h) \<and> [Op 0x51] \<noteq> p2sh_script (Data h)
            \<and> [Op 0x51] \<noteq> p2wpkh_script (Data h))
        \<and> (\<forall>h. length h = 32 \<longrightarrow> [Op 0x51] \<noteq> p2wsh_script (Data h))"
    by (simp add: p2pkh_script_def p2sh_script_def p2wpkh_script_def p2wsh_script_def)
  from address_templates [where ?h1.0 = "sample_hash160 [1]" and ?h2.0 = "sample_hash160 [1]"
        and ?h3.0 = "sample_hash160 [1]" and ?h4.0 = "sample_sha256 [2]"
        and self = "[Op 0x51]" and ext = sample_externals and testnet = False]
    address_templates [where ?h1.0 = "sample_hash160 [1]" and ?h2.0 = "sample_hash160 [1]"
        and ?h3.0 = "sample_hash160 [1]" and ?h4.0 = "sample_sha256 [2]"
        and self = "[Op 0x51]" and ext = sample_externals and testnet = True]
    l n
  show ?thesis
    by (simp add: sample_externals_def bech32_prefix_def)
qed

end
